theory Spec2Isabelle
  imports Complex_Main "HOL-Library.Monad_Syntax" "HOL-Library.Product_Lexorder"
    "HOL-Library.Multiset" "HOL-Library.Sublist"
begin

section \<open>Data model of \<^verbatim>\<open>pdf_parser.py\<close>\<close>

text \<open>
  A Python \<^verbatim>\<open>str\<close> is modelled as a \<^typ>\<open>string\<close> in which every \<^typ>\<open>char\<close> is one
  code point below 256. Sizes are Python ints (\<^verbatim>\<open>round\<close> of a float), coordinates and
  direction components are the exact rational values of the floats the extractor delivers,
  and a document is represented by its page count, the only thing the two functions
  read from it (\<^verbatim>\<open>len(doc)\<close>).

  \<^verbatim>\<open>TextBlock = namedtuple('TextBlock', ['text', 'size', 'font', 'bbox', 'page', 'dir'])\<close>
\<close>

record TextBlock =
  b_text :: string
  b_size :: int
  b_font :: string
  b_bbox :: "rat \<times> rat \<times> rat \<times> rat"
  b_page :: nat
  b_dir :: "(rat \<times> rat) option"

text \<open>\<^verbatim>\<open>b.bbox[1]\<close>, the top coordinate of the line.\<close>

definition bbox1 :: "TextBlock \<Rightarrow> rat" where
  "bbox1 b = fst (snd (b_bbox b))"

text \<open>The dictionaries \<^verbatim>\<open>{"level": ..., "text": ..., "page": ...}\<close> of the outline.\<close>

record OutlineItem =
  i_level :: string
  i_text :: string
  i_page :: nat

text \<open>The dictionary \<^verbatim>\<open>{"title": ..., "outline": ...}\<close> that the classifier returns.\<close>

record DocumentOutline =
  title :: string
  outline :: "OutlineItem list"

section \<open>Python primitives\<close>

text \<open>
  Operations that raise in Python return \<^const>\<open>None\<close> where they would raise:
  \<^verbatim>\<open>max\<close> of an empty sequence (ValueError), \<^verbatim>\<open>xs[0]\<close> and \<^verbatim>\<open>xs[-1]\<close> of an empty list
  (IndexError), \<^verbatim>\<open>d[k]\<close> for a missing key (KeyError), \<^verbatim>\<open>a / b\<close> for \<^verbatim>\<open>b == 0\<close>
  (ZeroDivisionError).
\<close>

fun py_max :: "int list \<Rightarrow> int option" where
  "py_max [] = None"
| "py_max (x # xs) = Some (fold max xs x)"

fun py_first :: "'a list \<Rightarrow> 'a option" where
  "py_first [] = None"
| "py_first (x # xs) = Some x"

definition py_last :: "'a list \<Rightarrow> 'a option" where
  "py_last xs = (if xs = [] then None else Some (last xs))"

definition py_getitem :: "('k \<rightharpoonup> 'v) \<Rightarrow> 'k \<Rightarrow> 'v option" where
  "py_getitem d k = d k"

definition py_truediv :: "nat \<Rightarrow> nat \<Rightarrow> rat option" where
  "py_truediv a b = (if b = 0 then None else Some (of_nat a / of_nat b))"

text \<open>
  \<^verbatim>\<open>str.isspace\<close> on one character, which is also what \<^verbatim>\<open>\s\<close> matches in a \<^verbatim>\<open>str\<close>
  pattern and what \<^verbatim>\<open>str.split()\<close> and \<^verbatim>\<open>str.strip()\<close> treat as white space: below 256
  these are the code points 9 to 13, 28 to 32, 133 and 160.
\<close>

definition isspace :: "char \<Rightarrow> bool" where
  "isspace c \<longleftrightarrow> (let n = (of_char c :: nat) in
     (9 \<le> n \<and> n \<le> 13) \<or> (28 \<le> n \<and> n \<le> 32) \<or> n = 133 \<or> n = 160)"

text \<open>\<^verbatim>\<open>\d\<close> in a \<^verbatim>\<open>str\<close> pattern: below 256 the decimal digits are \<^verbatim>\<open>0\<close> to \<^verbatim>\<open>9\<close>.\<close>

definition isdigit :: "char \<Rightarrow> bool" where
  "isdigit c \<longleftrightarrow> (let n = (of_char c :: nat) in 48 \<le> n \<and> n \<le> 57)"

text \<open>The class \<^verbatim>\<open>[A-Z]\<close>.\<close>

definition isupper_AZ :: "char \<Rightarrow> bool" where
  "isupper_AZ c \<longleftrightarrow> (let n = (of_char c :: nat) in 65 \<le> n \<and> n \<le> 90)"

text \<open>
  \<^verbatim>\<open>\w\<close> in a \<^verbatim>\<open>str\<close> pattern (alphanumeric or underscore), restricted to code points
  below 256.
\<close>

definition isword :: "char \<Rightarrow> bool" where
  "isword c \<longleftrightarrow> (let n = (of_char c :: nat) in
     (48 \<le> n \<and> n \<le> 57) \<or> (65 \<le> n \<and> n \<le> 90) \<or> n = 95 \<or> (97 \<le> n \<and> n \<le> 122)
     \<or> n = 170 \<or> n = 178 \<or> n = 179 \<or> n = 181 \<or> n = 185 \<or> n = 186
     \<or> (188 \<le> n \<and> n \<le> 190) \<or> (192 \<le> n \<and> n \<le> 214) \<or> (216 \<le> n \<and> n \<le> 246)
     \<or> (248 \<le> n \<and> n \<le> 255))"

text \<open>\<^verbatim>\<open>s.strip()\<close>.\<close>

definition strip :: "string \<Rightarrow> string" where
  "strip s = rev (dropWhile isspace (rev (dropWhile isspace s)))"

text \<open>\<^verbatim>\<open>s.split()\<close>: the maximal runs of non-space characters; \<open>w\<close> is the current word, reversed.\<close>

fun split_acc :: "string \<Rightarrow> string \<Rightarrow> string list" where
  "split_acc w [] = (if w = [] then [] else [rev w])"
| "split_acc w (c # cs) =
     (if isspace c then (if w = [] then split_acc [] cs else rev w # split_acc [] cs)
      else split_acc (c # w) cs)"

definition split :: "string \<Rightarrow> string list" where
  "split s = split_acc [] s"

text \<open>\<^verbatim>\<open>sep.join(parts)\<close>.\<close>

fun join :: "string \<Rightarrow> string list \<Rightarrow> string" where
  "join sep [] = []"
| "join sep [x] = x"
| "join sep (x # y # ys) = x @ sep @ join sep (y # ys)"

text \<open>\<^verbatim>\<open>re.sub(r'\s+', ' ', text)\<close>: every maximal run of white space becomes one blank.\<close>

function sub_spaces :: "string \<Rightarrow> string" where
  "sub_spaces [] = []"
| "sub_spaces (c # cs) =
     (if isspace c then CHR '' '' # sub_spaces (dropWhile isspace cs) else c # sub_spaces cs)"
  by pat_completeness auto
termination
  by (relation "measure length") (auto simp: length_dropWhile_le less_Suc_eq_le)

text \<open>\<^verbatim>\<open>def clean_text(text): return re.sub(r'\s+', ' ', text).strip()\<close>\<close>

definition clean_text :: "string \<Rightarrow> string" where
  "clean_text t = strip (sub_spaces t)"

text \<open>\<^verbatim>\<open>str(n)\<close> for a natural number, as the f-string \<^verbatim>\<open>f"H{i+1}"\<close> formats it.\<close>

fun str_nat :: "nat \<Rightarrow> string" where
  "str_nat n = (if n < 10 then [char_of (48 + n)]
     else str_nat (n div 10) @ [char_of (48 + n mod 10)])"

declare str_nat.simps [simp del]

definition fmt_H :: "nat \<Rightarrow> string" where
  "fmt_H n = ''H'' @ str_nat n"

section \<open>\<^verbatim>\<open>filter_non_content\<close>\<close>

text \<open>
  The double that the literal \<^verbatim>\<open>0.99\<close> denotes, as an exact rational: the comparison
  \<^verbatim>\<open>abs(block.dir[0]) < 0.99\<close> is a comparison of two doubles.
\<close>

definition lit_0_99 :: rat where
  "lit_0_99 = 4458563631096791 / 4503599627370496"

definition first_page_blocks :: "TextBlock list \<Rightarrow> TextBlock list" where
  "first_page_blocks blocks = filter (\<lambda>b. b_page b = 0) blocks"

text \<open>
  \<^verbatim>\<open>for b in first_page_blocks: if b.size == max_size: protected_texts.add(b.text)\<close>
\<close>

fun protect_loop :: "int \<Rightarrow> TextBlock list \<Rightarrow> string set \<Rightarrow> string set" where
  "protect_loop max_size [] protected_texts = protected_texts"
| "protect_loop max_size (b # bs) protected_texts =
     protect_loop max_size bs
       (if b_size b = max_size then insert (b_text b) protected_texts else protected_texts)"

text \<open>
  The second loop: a protected text is skipped; \<^verbatim>\<open>block.dir\<close> is truthy exactly when it is
  not \<^verbatim>\<open>None\<close> (a pair is never empty).
\<close>

fun mark_loop :: "string set \<Rightarrow> TextBlock list \<Rightarrow> string set \<Rightarrow> string set" where
  "mark_loop protected_texts [] texts_to_remove = texts_to_remove"
| "mark_loop protected_texts (block # bs) texts_to_remove =
     (if b_text block \<in> protected_texts then mark_loop protected_texts bs texts_to_remove
      else case b_dir block of
        Some d \<Rightarrow>
          if \<bar>fst d\<bar> < lit_0_99
          then mark_loop protected_texts bs (insert (b_text block) texts_to_remove)
          else mark_loop protected_texts bs texts_to_remove
      | None \<Rightarrow> mark_loop protected_texts bs texts_to_remove)"

definition filter_non_content :: "TextBlock list \<Rightarrow> nat \<Rightarrow> TextBlock list option" where
  "filter_non_content blocks doc =
     (if blocks = [] then Some []
      else do {
        protected_texts \<leftarrow>
          (if first_page_blocks blocks \<noteq> [] then do {
             max_size \<leftarrow> py_max (map b_size (first_page_blocks blocks));
             Some (protect_loop max_size (first_page_blocks blocks) {})
           } else Some {});
        let texts_to_remove = mark_loop protected_texts blocks {};
        if texts_to_remove \<noteq> {}
        then Some (filter (\<lambda>b. b_text b \<notin> texts_to_remove) blocks)
        else Some blocks
      })"

section \<open>Regular expressions\<close>

text \<open>
  A pattern is a backtracking matcher: from a position it returns every position it can
  stop at, in the order in which \<^verbatim>\<open>re\<close> tries them (greedy repetition first, the left
  alternative first). \<^verbatim>\<open>re.match\<close> starts at the beginning of the string and returns the
  first of them. A position records the characters already consumed (latest first, for
  \<^verbatim>\<open>\b\<close>), the remaining input and the text of capture group 1.
\<close>

record mstate =
  seen_rev :: string
  rest :: string
  group1 :: "string option"

type_synonym rx = "mstate \<Rightarrow> mstate list"

definition rx_eps :: rx where
  "rx_eps st = [st]"

definition rx_cls :: "(char \<Rightarrow> bool) \<Rightarrow> rx" where
  "rx_cls P st = (case rest st of [] \<Rightarrow> []
     | c # cs \<Rightarrow> if P c then [st\<lparr>seen_rev := c # seen_rev st, rest := cs\<rparr>] else [])"

definition rx_chr :: "char \<Rightarrow> rx" where
  "rx_chr x = rx_cls (\<lambda>c. c = x)"

definition rx_seq :: "rx \<Rightarrow> rx \<Rightarrow> rx" where
  "rx_seq p q st = concat (map q (p st))"

definition rx_alt :: "rx \<Rightarrow> rx \<Rightarrow> rx" where
  "rx_alt p q st = p st @ q st"

text \<open>\<^verbatim>\<open>p?\<close>\<close>

definition rx_opt :: "rx \<Rightarrow> rx" where
  "rx_opt p st = p st @ [st]"

text \<open>\<^verbatim>\<open>p*\<close>: an iteration that consumes nothing ends the repetition, as in \<^verbatim>\<open>re\<close>.\<close>

function rx_star :: "rx \<Rightarrow> rx" where
  "rx_star p st =
     concat (map (\<lambda>st'. if length (rest st') < length (rest st) then rx_star p st' else [])
                 (p st)) @ [st]"
  by pat_completeness auto
termination
  by (relation "measure (\<lambda>(p, st). length (rest st))") auto

declare rx_star.simps [simp del]

text \<open>\<^verbatim>\<open>p+\<close>, \<^verbatim>\<open>p{1,2}\<close> and \<^verbatim>\<open>p{4}\<close>\<close>

definition rx_plus :: "rx \<Rightarrow> rx" where
  "rx_plus p = rx_seq p (rx_star p)"

definition rx_rep12 :: "rx \<Rightarrow> rx" where
  "rx_rep12 p = rx_seq p (rx_opt p)"

definition rx_rep4 :: "rx \<Rightarrow> rx" where
  "rx_rep4 p = rx_seq p (rx_seq p (rx_seq p p))"

text \<open>\<^verbatim>\<open>\b\<close>: exactly one of the characters before and after the position is a word character.\<close>

definition rx_bnd :: rx where
  "rx_bnd st =
     (let w_prev = (case seen_rev st of [] \<Rightarrow> False | c # _ \<Rightarrow> isword c);
          w_next = (case rest st of [] \<Rightarrow> False | c # _ \<Rightarrow> isword c)
      in if w_prev \<noteq> w_next then [st] else [])"

text \<open>The capture group 1: it records what \<open>p\<close> consumed.\<close>

definition rx_grp1 :: "rx \<Rightarrow> rx" where
  "rx_grp1 p st =
     map (\<lambda>st'. st'\<lparr>group1 :=
            Some (rev (take (length (seen_rev st') - length (seen_rev st)) (seen_rev st')))\<rparr>)
         (p st)"

text \<open>
  A literal under \<^verbatim>\<open>re.IGNORECASE\<close>. For the letters of the month names and code points
  below 256, a character matches when it is the letter in either case.
\<close>

definition lower :: "char \<Rightarrow> char" where
  "lower c = (if isupper_AZ c then char_of (of_char c + (32::nat)) else c)"

fun rx_lit_i :: "string \<Rightarrow> rx" where
  "rx_lit_i [] = rx_eps"
| "rx_lit_i (x # xs) = rx_seq (rx_cls (\<lambda>c. lower c = lower x)) (rx_lit_i xs)"

definition rx_alts :: "rx list \<Rightarrow> rx" where
  "rx_alts ps = foldr rx_alt ps (\<lambda>st. [])"

definition rx_seqs :: "rx list \<Rightarrow> rx" where
  "rx_seqs ps = foldr rx_seq ps rx_eps"

definition re_match :: "rx \<Rightarrow> string \<Rightarrow> mstate option" where
  "re_match p s =
     (case p \<lparr>seen_rev = [], rest = s, group1 = None\<rparr> of [] \<Rightarrow> None | st # _ \<Rightarrow> Some st)"

text \<open>
  \<^verbatim>\<open>(January|February|March|April|May|June|July|August|September|October|November|December|Jan|Feb|Mar|Apr|Jun|Jul|Aug|Sep|Oct|Nov|Dec)\<close>
\<close>

definition month :: rx where
  "month = rx_alts (map rx_lit_i
     [''January'', ''February'', ''March'', ''April'', ''May'', ''June'', ''July'', ''August'',
      ''September'', ''October'', ''November'', ''December'', ''Jan'', ''Feb'', ''Mar'', ''Apr'',
      ''Jun'', ''Jul'', ''Aug'', ''Sep'', ''Oct'', ''Nov'', ''Dec''])"

text \<open>
  \<^verbatim>\<open>\b(month)\s+\d{1,2},\s+\d{4}\b|\b\d{1,2}\s+(month)\s+\d{4}\b\<close> with \<^verbatim>\<open>re.IGNORECASE\<close>
\<close>

definition date_pattern :: rx where
  "date_pattern = rx_alt
     (rx_seqs [rx_bnd, month, rx_plus (rx_cls isspace), rx_rep12 (rx_cls isdigit),
               rx_chr CHR '','', rx_plus (rx_cls isspace), rx_rep4 (rx_cls isdigit), rx_bnd])
     (rx_seqs [rx_bnd, rx_rep12 (rx_cls isdigit), rx_plus (rx_cls isspace), month,
               rx_plus (rx_cls isspace), rx_rep4 (rx_cls isdigit), rx_bnd])"

text \<open>\<^verbatim>\<open>^\s*([A-Z]|\d{1,2}(\.\d{1,2})*)\.?\s+\<close>\<close>

definition number_pattern :: rx where
  "number_pattern = rx_seqs
     [rx_star (rx_cls isspace),
      rx_grp1 (rx_alt (rx_cls isupper_AZ)
                 (rx_seq (rx_rep12 (rx_cls isdigit))
                         (rx_star (rx_seq (rx_chr CHR ''.'') (rx_rep12 (rx_cls isdigit)))))),
      rx_opt (rx_chr CHR ''.''),
      rx_plus (rx_cls isspace)]"

text \<open>\<^verbatim>\<open>date_pattern.match(s)\<close> as a truth value.\<close>

definition date_match :: "string \<Rightarrow> bool" where
  "date_match s \<longleftrightarrow> re_match date_pattern s \<noteq> None"

text \<open>
  \<^verbatim>\<open>number_pattern.match(s)\<close>, reduced to what the caller reads of it: \<^const>\<open>None\<close> when
  there is no match, and \<^verbatim>\<open>match.group(1)\<close> otherwise (group 1 takes part in every match).
\<close>

definition number_match :: "string \<Rightarrow> string option" where
  "number_match s = (case re_match number_pattern s of None \<Rightarrow> None | Some st \<Rightarrow> group1 st)"

section \<open>\<^verbatim>\<open>classify_headings\<close>\<close>

subsection \<open>Step 1: document type detection\<close>

text \<open>
  \<^verbatim>\<open>len(paragraph_blocks) / len(blocks) < 0.1\<close> divides two ints into a double and compares
  it with the double \<^verbatim>\<open>0.1\<close>. The quotient is only computed when \<^verbatim>\<open>len(blocks) < 40\<close>;
  there a quotient other than one tenth is further from it than any rounding, and the
  quotients equal to one tenth round to the double \<^verbatim>\<open>0.1\<close> itself, so the comparison of
  doubles has the value of the exact comparison below.
\<close>

definition is_graphical_doc :: "nat \<Rightarrow> TextBlock list \<Rightarrow> bool option" where
  "is_graphical_doc doc blocks =
     (if doc = 1 then
        (let paragraph_blocks = filter (\<lambda>b. length (split (b_text b)) > 15) blocks in
         if length blocks < 40 then
           (if paragraph_blocks = [] then Some True
            else do {
              q \<leftarrow> py_truediv (length paragraph_blocks) (length blocks);
              Some (q < 1 / 10)
            })
         else Some False)
      else Some False)"

text \<open>
  \<^verbatim>\<open>sorted(blocks, key=lambda x: x.size, reverse=True)[0]\<close>: a stable sort by descending
  size, which is the stable sort by ascending negated size.
\<close>

definition graphical_result :: "TextBlock list \<Rightarrow> DocumentOutline option" where
  "graphical_result blocks = do {
     largest_block \<leftarrow> py_first (sort_key (\<lambda>x. - b_size x) blocks);
     Some \<lparr>title = [],
           outline = [\<lparr>i_level = ''H1'', i_text = clean_text (b_text largest_block),
                       i_page = b_page largest_block\<rparr>]\<rparr>
   }"

subsection \<open>Step 2: title\<close>

text \<open>Lines 147 to 154: the pair \<^verbatim>\<open>(doc_title, title_parts)\<close>.\<close>

definition extract_title :: "TextBlock list \<Rightarrow> (string \<times> string list) option" where
  "extract_title blocks =
     (if first_page_blocks blocks \<noteq> [] then do {
        max_size \<leftarrow> py_max (map b_size (first_page_blocks blocks));
        let title_blocks =
              sort_key bbox1 (filter (\<lambda>b. b_size b = max_size) (first_page_blocks blocks));
        let title_parts = map b_text title_blocks;
        Some (join '' '' title_parts, title_parts)
      } else Some (''Title Not Found'', []))"

text \<open>\<^verbatim>\<open>sorted(list(set(b.size for b in blocks)), reverse=True)\<close>\<close>

definition distinct_sizes_desc :: "TextBlock list \<Rightarrow> int list" where
  "distinct_sizes_desc blocks = rev (sort (remdups (map b_size blocks)))"

text \<open>\<^verbatim>\<open>{size: f"H{i+1}" for i, size in enumerate(sizes[:3])}\<close>\<close>

definition size_to_level :: "int list \<Rightarrow> (int \<rightharpoonup> string)" where
  "size_to_level sizes =
     fold (\<lambda>(i, s) d. d(s \<mapsto> fmt_H (i + 1))) (enumerate 0 (take 3 sizes)) Map.empty"

subsection \<open>Strategy 1 (structured documents)\<close>

text \<open>Lines 172 to 176: the text a block contributes.\<close>

definition text_to_add :: "string \<Rightarrow> string" where
  "text_to_add t =
     (if length (split t) \<ge> 10 \<and> CHR '':'' \<in> set t then
        (let potential_heading = takeWhile (\<lambda>c. c \<noteq> CHR '':'') t in
         if length (split potential_heading) < 5 then potential_heading @ '':'' else t)
      else t)"

text \<open>
  The body of the loop of lines 168 to 179 for one block: the items it appends to the
  outline (none after \<^verbatim>\<open>continue\<close>); \<^verbatim>\<open>size_to_level[b.size]\<close> raises on a missing key.
\<close>

definition strategy1_emit ::
  "(int \<rightharpoonup> string) \<Rightarrow> string list \<Rightarrow> TextBlock \<Rightarrow> OutlineItem list option" where
  "strategy1_emit stl title_parts b =
     (if b_text b \<in> set title_parts \<or> stl (b_size b) = None \<or> date_match (strip (b_text b))
      then Some []
      else if length (split (text_to_add (b_text b))) < 10
      then do {
        lv \<leftarrow> py_getitem stl (b_size b);
        Some [\<lparr>i_level = lv, i_text = text_to_add (b_text b), i_page = b_page b\<rparr>]
      }
      else Some [])"

fun strategy1_loop ::
  "(int \<rightharpoonup> string) \<Rightarrow> string list \<Rightarrow> TextBlock list \<Rightarrow> OutlineItem list
     \<Rightarrow> OutlineItem list option" where
  "strategy1_loop stl title_parts [] outl = Some outl"
| "strategy1_loop stl title_parts (b # bs) outl = do {
     items \<leftarrow> strategy1_emit stl title_parts b;
     strategy1_loop stl title_parts bs (outl @ items)
   }"

definition strategy1 :: "TextBlock list \<Rightarrow> string list \<Rightarrow> int list \<Rightarrow> OutlineItem list option" where
  "strategy1 blocks title_parts unique_sizes =
     strategy1_loop (size_to_level unique_sizes) title_parts blocks []"

subsection \<open>Strategy 2 (standard text documents)\<close>

text \<open>
  \<^verbatim>\<open>Counter(xs).most_common(1)\<close>: the counts in order of first occurrence, and of them the
  first entry with the greatest count (\<^verbatim>\<open>heapq.nlargest(1, ...)\<close> is \<^verbatim>\<open>max\<close> with a key).
\<close>

fun count_up :: "int \<Rightarrow> (int \<times> nat) list \<Rightarrow> (int \<times> nat) list" where
  "count_up x [] = [(x, 1)]"
| "count_up x ((k, n) # kvs) = (if k = x then (k, n + 1) # kvs else (k, n) # count_up x kvs)"

definition Counter :: "int list \<Rightarrow> (int \<times> nat) list" where
  "Counter xs = fold count_up xs []"

fun max_by_count :: "(int \<times> nat) \<Rightarrow> (int \<times> nat) list \<Rightarrow> (int \<times> nat)" where
  "max_by_count best [] = best"
| "max_by_count best (kv # kvs) = max_by_count (if snd kv > snd best then kv else best) kvs"

definition most_common1 :: "int list \<Rightarrow> (int \<times> nat) list" where
  "most_common1 xs = (case Counter xs of [] \<Rightarrow> [] | kv # kvs \<Rightarrow> [max_by_count kv kvs])"

text \<open>Line 184.\<close>

definition body_size :: "TextBlock list \<Rightarrow> int list \<Rightarrow> int option" where
  "body_size blocks unique_sizes =
     (let para_sizes = map b_size (filter (\<lambda>b. length (split (b_text b)) > 20) blocks) in
      if para_sizes \<noteq> [] then do {
        mc \<leftarrow> py_first (most_common1 para_sizes);
        Some (fst mc)
      }
      else if unique_sizes \<noteq> [] then py_last unique_sizes
      else Some 0)"

text \<open>Line 186.\<close>

definition heading_candidates :: "TextBlock list \<Rightarrow> string list \<Rightarrow> int \<Rightarrow> TextBlock list" where
  "heading_candidates blocks title_parts bsz =
     filter (\<lambda>b. b_text b \<notin> set title_parts \<and> b_size b > bsz
                 \<and> length (split (b_text b)) < 20 \<and> \<not> date_match (strip (b_text b))) blocks"

text \<open>
  The body of the loop of lines 191 to 195: the level of one candidate, \<^const>\<open>None\<close> when
  the candidate is not appended.
\<close>

definition heading_level :: "(int \<rightharpoonup> string) \<Rightarrow> TextBlock \<Rightarrow> string option" where
  "heading_level stl b =
     (let level = stl (b_size b) in
      case number_match (b_text b) of
        Some g \<Rightarrow> Some (fmt_H (min (count_list g CHR ''.'' + 1) 3))
      | None \<Rightarrow> level)"

definition heading_item :: "(int \<rightharpoonup> string) \<Rightarrow> TextBlock \<Rightarrow> OutlineItem option" where
  "heading_item stl b =
     map_option (\<lambda>level. \<lparr>i_level = level, i_text = b_text b, i_page = b_page b\<rparr>)
       (heading_level stl b)"

definition strategy2_outline :: "TextBlock list \<Rightarrow> OutlineItem list" where
  "strategy2_outline candidates =
     (let heading_sizes = distinct_sizes_desc candidates;
          stl = size_to_level heading_sizes
      in List.map_filter (heading_item stl)
           (sort_key (\<lambda>b. (b_page b, bbox1 b)) candidates))"

definition strategy2 :: "TextBlock list \<Rightarrow> string list \<Rightarrow> int list \<Rightarrow> OutlineItem list option" where
  "strategy2 blocks title_parts unique_sizes = do {
     bsz \<leftarrow> body_size blocks unique_sizes;
     Some (strategy2_outline (heading_candidates blocks title_parts bsz))
   }"

subsection \<open>Step 3: final cleanup\<close>

text \<open>Lines 198 to 204.\<close>

fun dedup_loop ::
  "OutlineItem list \<Rightarrow> (string \<times> nat) set \<Rightarrow> OutlineItem list \<Rightarrow> OutlineItem list" where
  "dedup_loop [] seen final_outline = final_outline"
| "dedup_loop (item # items) seen final_outline =
     (if (i_text item, i_page item) \<notin> seen
      then dedup_loop items (insert (i_text item, i_page item) seen) (final_outline @ [item])
      else dedup_loop items seen final_outline)"

text \<open>\<^verbatim>\<open>s.startswith('&')\<close>\<close>

definition startswith_amp :: "string \<Rightarrow> bool" where
  "startswith_amp s = (case s of [] \<Rightarrow> False | c # _ \<Rightarrow> c = CHR ''&'')"

text \<open>
  Lines 209 to 217, over \<^verbatim>\<open>final_outline[1:]\<close>. Assigning to \<^verbatim>\<open>prev_item['text']\<close> changes
  the last entry of \<^verbatim>\<open>merged_outline\<close>; no later step reads that dictionary through
  another list.
\<close>

fun merge_loop :: "OutlineItem list \<Rightarrow> OutlineItem list \<Rightarrow> OutlineItem list option" where
  "merge_loop [] merged_outline = Some merged_outline"
| "merge_loop (current_item # items) merged_outline = do {
     prev_item \<leftarrow> py_last merged_outline;
     if i_page current_item = i_page prev_item \<and> i_level current_item = i_level prev_item
        \<and> startswith_amp (strip (i_text current_item))
     then merge_loop items
            (butlast merged_outline
               @ [prev_item\<lparr>i_text := i_text prev_item @ '' '' @ i_text current_item\<rparr>])
     else merge_loop items (merged_outline @ [current_item])
   }"

definition final_cleanup :: "OutlineItem list \<Rightarrow> OutlineItem list option" where
  "final_cleanup outl =
     (let final_outline = dedup_loop outl {} [] in
      if final_outline \<noteq> [] then do {
        first_item \<leftarrow> py_first final_outline;
        merge_loop (tl final_outline) [first_item]
      } else Some [])"

subsection \<open>The classifier\<close>

definition classify_headings :: "nat \<Rightarrow> TextBlock list \<Rightarrow> DocumentOutline option" where
  "classify_headings doc blocks =
     (if blocks = [] then Some \<lparr>title = ''Title Not Found'', outline = []\<rparr>
      else do {
        is_graphical \<leftarrow> is_graphical_doc doc blocks;
        if is_graphical then graphical_result blocks
        else do {
          (doc_title, title_parts) \<leftarrow> extract_title blocks;
          let unique_sizes = distinct_sizes_desc blocks;
          outl \<leftarrow> (if 1 < length unique_sizes \<and> length unique_sizes \<le> 6
                    then strategy1 blocks title_parts unique_sizes
                    else strategy2 blocks title_parts unique_sizes);
          merged_outline \<leftarrow> final_cleanup outl;
          Some \<lparr>title = clean_text doc_title, outline = merged_outline\<rparr>
        }
      })"

section \<open>Notions of the specification\<close>

text \<open>
  The protected texts as the specification words them: the texts of the page-0 blocks
  that no page-0 block exceeds in size.
\<close>

definition noise_protected :: "TextBlock list \<Rightarrow> string set" where
  "noise_protected blocks =
     set (map b_text (filter (\<lambda>b. b_page b = 0
            \<and> (\<forall>b' \<in> set blocks. b_page b' = 0 \<longrightarrow> b_size b' \<le> b_size b)) blocks))"

text \<open>
  The marked texts: the texts of the unprotected blocks whose direction is present and
  has a first component of absolute value below \<^verbatim>\<open>0.99\<close>.
\<close>

definition noise_marked :: "TextBlock list \<Rightarrow> string set" where
  "noise_marked blocks =
     set (map b_text (filter (\<lambda>b. b_text b \<notin> noise_protected blocks
            \<and> (case b_dir b of None \<Rightarrow> False | Some d \<Rightarrow> \<bar>fst d\<bar> < lit_0_99)) blocks))"

text \<open>
  The watermark scenario: a horizontal block of size 30 on page 0 and a rotated block
  \<^verbatim>\<open>CONFIDENTIAL\<close> of size 10 on pages 0 and 3.
\<close>

definition watermark_example :: "TextBlock list" where
  "watermark_example =
     [\<lparr>b_text = ''Quarterly Report'', b_size = 30, b_font = ''Helvetica'',
        b_bbox = (72, 80, 400, 110), b_page = 0, b_dir = Some (1, 0)\<rparr>,
      \<lparr>b_text = ''CONFIDENTIAL'', b_size = 10, b_font = ''Helvetica'',
        b_bbox = (100, 300, 300, 500), b_page = 0, b_dir = Some (1 / 2, 87 / 100)\<rparr>,
      \<lparr>b_text = ''CONFIDENTIAL'', b_size = 10, b_font = ''Helvetica'',
        b_bbox = (100, 300, 300, 500), b_page = 3, b_dir = Some (1 / 2, 87 / 100)\<rparr>]"

text \<open>
  The end-to-end example of the specification: one title line of size 24 and two
  numbered lines of size 12, all on page 0.
\<close>

definition annual_report_example :: "TextBlock list" where
  "annual_report_example =
     [\<lparr>b_text = ''Annual Report'', b_size = 24, b_font = ''Helvetica'',
        b_bbox = (0, 0, 200, 30), b_page = 0, b_dir = Some (1, 0)\<rparr>,
      \<lparr>b_text = ''1. Introduction'', b_size = 12, b_font = ''Helvetica'',
        b_bbox = (0, 50, 200, 62), b_page = 0, b_dir = Some (1, 0)\<rparr>,
      \<lparr>b_text = ''2. Methods'', b_size = 12, b_font = ''Helvetica'',
        b_bbox = (0, 70, 200, 82), b_page = 0, b_dir = Some (1, 0)\<rparr>]"

text \<open>
  The graphical condition as the specification words it: one page, fewer than 40 blocks,
  and no block of more than 15 words or a fraction of such blocks below one tenth.
\<close>

definition spec_is_graphical :: "nat \<Rightarrow> TextBlock list \<Rightarrow> bool" where
  "spec_is_graphical doc blocks \<longleftrightarrow>
     doc = 1 \<and> length blocks < 40
     \<and> (\<not> (\<exists>b \<in> set blocks. length (split (b_text b)) > 15)
        \<or> (of_nat (length (filter (\<lambda>b. length (split (b_text b)) > 15) blocks))
             / of_nat (length blocks) :: rat) < 1 / 10)"

text \<open>The page-0 blocks of maximal page-0 size, in the order of the input.\<close>

definition max_size_first_page :: "TextBlock list \<Rightarrow> TextBlock list" where
  "max_size_first_page blocks =
     filter (\<lambda>b. b_page b = 0
        \<and> (\<forall>b' \<in> set blocks. b_page b' = 0 \<longrightarrow> b_size b' \<le> b_size b)) blocks"

text \<open>Two title lines of the same size at the same height, as in a two-column heading.\<close>

definition column_left :: TextBlock where
  "column_left = \<lparr>b_text = ''Left'', b_size = 20, b_font = ''Helvetica'',
        b_bbox = (0, 10, 100, 30), b_page = 0, b_dir = Some (1, 0)\<rparr>"

definition column_right :: TextBlock where
  "column_right = \<lparr>b_text = ''Right'', b_size = 20, b_font = ''Helvetica'',
        b_bbox = (200, 10, 300, 30), b_page = 0, b_dir = Some (1, 0)\<rparr>"

text \<open>The key by which the final cleanup recognises a duplicate.\<close>

definition item_key :: "OutlineItem \<Rightarrow> string \<times> nat" where
  "item_key item = (i_text item, i_page item)"

text \<open>A text with at least one character that is not white space.\<close>

definition nonblank :: "string \<Rightarrow> bool" where
  "nonblank t \<longleftrightarrow> (\<exists>c \<in> set t. \<not> isspace c)"

text \<open>The condition of lines 212 to 214 under which an entry is appended to its predecessor.\<close>

definition mergeable :: "OutlineItem \<Rightarrow> OutlineItem \<Rightarrow> bool" where
  "mergeable prev_item current_item \<longleftrightarrow>
     i_page current_item = i_page prev_item \<and> i_level current_item = i_level prev_item
     \<and> startswith_amp (strip (i_text current_item))"

text \<open>An outline in which no entry would be appended to the entry before it.\<close>

fun merge_stable :: "OutlineItem list \<Rightarrow> bool" where
  "merge_stable [] = True"
| "merge_stable [x] = True"
| "merge_stable (x # y # ys) = (\<not> mergeable x y \<and> merge_stable (y # ys))"

text \<open>
  Candidates of one heading broken before its ampersand, followed by the same heading on
  one line.
\<close>

definition amp_example :: "OutlineItem list" where
  "amp_example =
     [\<lparr>i_level = ''H1'', i_text = ''Research'', i_page = 0\<rparr>,
      \<lparr>i_level = ''H1'', i_text = ''& Development'', i_page = 0\<rparr>,
      \<lparr>i_level = ''H1'', i_text = ''Research & Development'', i_page = 0\<rparr>]"

text \<open>
  Heading candidates of a report in four sizes; the numbered line and the last line have
  the fourth size.
\<close>

definition report_candidates :: "TextBlock list" where
  "report_candidates =
     [\<lparr>b_text = ''Overview'', b_size = 20, b_font = ''Times'',
        b_bbox = (72, 10, 300, 30), b_page = 1, b_dir = Some (1, 0)\<rparr>,
      \<lparr>b_text = ''Background'', b_size = 18, b_font = ''Times'',
        b_bbox = (72, 50, 300, 68), b_page = 1, b_dir = Some (1, 0)\<rparr>,
      \<lparr>b_text = ''Details'', b_size = 16, b_font = ''Times'',
        b_bbox = (72, 10, 300, 26), b_page = 2, b_dir = Some (1, 0)\<rparr>,
      \<lparr>b_text = ''2.1 Scope'', b_size = 14, b_font = ''Times'',
        b_bbox = (72, 50, 300, 64), b_page = 2, b_dir = Some (1, 0)\<rparr>,
      \<lparr>b_text = ''Notes'', b_size = 14, b_font = ''Times'',
        b_bbox = (72, 10, 300, 24), b_page = 3, b_dir = Some (1, 0)\<rparr>]"

text \<open>A resume in three sizes; the first line is the title.\<close>

definition resume_example :: "TextBlock list" where
  "resume_example =
     [\<lparr>b_text = ''Jane Doe'', b_size = 24, b_font = ''Helvetica'',
        b_bbox = (72, 40, 300, 70), b_page = 0, b_dir = Some (1, 0)\<rparr>,
      \<lparr>b_text = ''Experience'', b_size = 16, b_font = ''Helvetica'',
        b_bbox = (72, 100, 300, 118), b_page = 0, b_dir = Some (1, 0)\<rparr>,
      \<lparr>b_text = ''Engineer at Acme'', b_size = 12, b_font = ''Helvetica'',
        b_bbox = (72, 130, 300, 144), b_page = 0, b_dir = Some (1, 0)\<rparr>]"

text \<open>
  The numbering prefix in words. A number of the sequence is \<open>num\<close>: one or two decimal
  digits in the pattern of the code (\<open>digits12\<close>), any positive count of digits in the
  wider reading (\<open>digits_any\<close>). The prefix \<open>g\<close> is one letter from \<^verbatim>\<open>A\<close> to \<^verbatim>\<open>Z\<close> or numbers
  joined by single periods; the text is white space, the prefix, an optional period, at
  least one white-space character, and the remainder.
\<close>

definition digits12 :: "string \<Rightarrow> bool" where
  "digits12 n \<longleftrightarrow> (length n = 1 \<or> length n = 2) \<and> (\<forall>c \<in> set n. isdigit c)"

definition digits_any :: "string \<Rightarrow> bool" where
  "digits_any n \<longleftrightarrow> n \<noteq> [] \<and> (\<forall>c \<in> set n. isdigit c)"

definition starts_with_numbering :: "(string \<Rightarrow> bool) \<Rightarrow> string \<Rightarrow> string \<Rightarrow> bool" where
  "starts_with_numbering num g t \<longleftrightarrow>
     (\<exists>ws dot sp r. t = ws @ g @ dot @ sp # r
        \<and> (\<forall>c \<in> set ws. isspace c) \<and> (dot = [] \<or> dot = ''.'') \<and> isspace sp
        \<and> ((\<exists>c. g = [c] \<and> isupper_AZ c)
           \<or> (\<exists>ns. ns \<noteq> [] \<and> (\<forall>n \<in> set ns. num n) \<and> g = join ''.'' ns)))"

definition numbering_prefix :: "string \<Rightarrow> string \<Rightarrow> bool" where
  "numbering_prefix g t \<longleftrightarrow> starts_with_numbering digits12 g t"

text \<open>The position of a matcher after it has consumed \<open>u\<close>.\<close>

definition advance :: "string \<Rightarrow> mstate \<Rightarrow> mstate" where
  "advance u st = st\<lparr>seen_rev := rev u @ seen_rev st, rest := drop (length u) (rest st)\<rparr>"

text \<open>
  Every result of the matcher \<open>p\<close> is the position after a prefix of the input that is in
  the language \<open>L\<close>.
\<close>

definition consumes :: "rx \<Rightarrow> (string \<Rightarrow> bool) \<Rightarrow> bool" where
  "consumes p L \<longleftrightarrow>
     (\<forall>st x. x \<in> set (p st) \<longrightarrow> (\<exists>u. L u \<and> prefix u (rest st) \<and> x = advance u st))"

text \<open>
  Heading candidates with numbered texts: a leading number of three digits, a two-part
  number followed by a period, a letter followed by a period, and the two numbers of the
  specification, in the largest size.
\<close>

definition numbered_candidates :: "TextBlock list" where
  "numbered_candidates =
     [\<lparr>b_text = ''Overview'', b_size = 20, b_font = ''Times'',
        b_bbox = (72, 10, 300, 30), b_page = 1, b_dir = Some (1, 0)\<rparr>,
      \<lparr>b_text = ''100 Ways to Win'', b_size = 18, b_font = ''Times'',
        b_bbox = (72, 50, 300, 68), b_page = 1, b_dir = Some (1, 0)\<rparr>,
      \<lparr>b_text = ''12.3. Results'', b_size = 20, b_font = ''Times'',
        b_bbox = (72, 10, 300, 30), b_page = 2, b_dir = Some (1, 0)\<rparr>,
      \<lparr>b_text = ''A. Appendix'', b_size = 16, b_font = ''Times'',
        b_bbox = (72, 10, 300, 26), b_page = 3, b_dir = Some (1, 0)\<rparr>,
      \<lparr>b_text = ''2.1 Scope'', b_size = 20, b_font = ''Times'',
        b_bbox = (72, 10, 300, 30), b_page = 4, b_dir = Some (1, 0)\<rparr>,
      \<lparr>b_text = ''2.1.4.9 Details'', b_size = 20, b_font = ''Times'',
        b_bbox = (72, 50, 300, 70), b_page = 4, b_dir = Some (1, 0)\<rparr>]"

text \<open>
  A title of two lines of the same size, listed with the lower line first, above a line
  of body text.
\<close>

definition two_line_title_example :: "TextBlock list" where
  "two_line_title_example =
     [\<lparr>b_text = ''Report'', b_size = 24, b_font = ''Helvetica'',
        b_bbox = (72, 60, 300, 90), b_page = 0, b_dir = Some (1, 0)\<rparr>,
      \<lparr>b_text = ''Annual'', b_size = 24, b_font = ''Helvetica'',
        b_bbox = (72, 20, 300, 50), b_page = 0, b_dir = Some (1, 0)\<rparr>,
      \<lparr>b_text = ''Prepared by the board'', b_size = 12, b_font = ''Helvetica'',
        b_bbox = (72, 120, 300, 134), b_page = 0, b_dir = Some (1, 0)\<rparr>]"

section \<open>Properties of the primitives\<close>

lemma py_max_eq: "xs \<noteq> [] \<Longrightarrow> py_max xs = Some (Max (set xs))"
proof (cases xs)
  case Nil
  then show "xs \<noteq> [] \<Longrightarrow> ?thesis" by simp
next
  case (Cons a list)
  then show ?thesis using Max.set_eq_fold [of a list] by simp
qed

lemma max_size_iff:
  assumes "b \<in> set bs"
  shows "b_size b = Max (b_size ` set bs) \<longleftrightarrow> (\<forall>b' \<in> set bs. b_size b' \<le> b_size b)"
proof
  assume "b_size b = Max (b_size ` set bs)"
  then show "\<forall>b' \<in> set bs. b_size b' \<le> b_size b"
    by (simp add: Max_ge)
next
  assume h: "\<forall>b' \<in> set bs. b_size b' \<le> b_size b"
  have "Max (b_size ` set bs) = b_size b"
    by (rule Max_eqI) (use assms h in auto)
  then show "b_size b = Max (b_size ` set bs)" by simp
qed

section \<open>The empty document\<close>

text \<open>
  C8: for the empty block list, whatever the page count, the classifier returns the
  title \<^verbatim>\<open>"Title Not Found"\<close> and the empty outline.
\<close>

theorem classify_headings_empty:
  "classify_headings doc [] = Some \<lparr>title = ''Title Not Found'', outline = []\<rparr>"
  by (simp add: classify_headings_def)

section \<open>The noise filter\<close>

lemma protect_loop_eq:
  "protect_loop m bs P = P \<union> b_text ` {b \<in> set bs. b_size b = m}"
  by (induction bs arbitrary: P) auto

lemma mark_loop_eq:
  "mark_loop P bs R = R \<union> b_text ` {b \<in> set bs. b_text b \<notin> P
      \<and> (case b_dir b of None \<Rightarrow> False | Some d \<Rightarrow> \<bar>fst d\<bar> < lit_0_99)}"
  by (induction bs arbitrary: R) (auto split: option.splits)

lemma noise_protected_alt:
  "noise_protected blocks = b_text ` {b \<in> set blocks. b_page b = 0
      \<and> (\<forall>b' \<in> set blocks. b_page b' = 0 \<longrightarrow> b_size b' \<le> b_size b)}"
  by (auto simp: noise_protected_def)

lemma noise_marked_alt:
  "noise_marked blocks = b_text ` {b \<in> set blocks. b_text b \<notin> noise_protected blocks
      \<and> (case b_dir b of None \<Rightarrow> False | Some d \<Rightarrow> \<bar>fst d\<bar> < lit_0_99)}"
  by (auto simp: noise_marked_def)

lemma protected_texts_eq:
  assumes "first_page_blocks blocks \<noteq> []"
  shows "protect_loop (Max (set (map b_size (first_page_blocks blocks))))
           (first_page_blocks blocks) {} = noise_protected blocks"
proof -
  let ?fpb = "first_page_blocks blocks"
  have "{b \<in> set ?fpb. b_size b = Max (b_size ` set ?fpb)}
      = {b \<in> set ?fpb. \<forall>b' \<in> set ?fpb. b_size b' \<le> b_size b}"
    using max_size_iff [of _ ?fpb] by blast
  also have "\<dots> = {b \<in> set blocks. b_page b = 0
      \<and> (\<forall>b' \<in> set blocks. b_page b' = 0 \<longrightarrow> b_size b' \<le> b_size b)}"
    by (auto simp: first_page_blocks_def)
  finally show ?thesis
    by (simp add: protect_loop_eq noise_protected_alt)
qed

lemma noise_protected_no_first_page:
  "first_page_blocks blocks = [] \<Longrightarrow> noise_protected blocks = {}"
  by (auto simp: noise_protected_def first_page_blocks_def filter_empty_conv)

lemma filter_non_content_eq:
  "filter_non_content blocks doc =
     Some (if noise_marked blocks = {} then blocks
           else filter (\<lambda>b. b_text b \<notin> noise_marked blocks) blocks)"
proof (cases "blocks = []")
  case True
  then show ?thesis by (simp add: filter_non_content_def)
next
  case False
  have p: "(if first_page_blocks blocks \<noteq> [] then do {
             max_size \<leftarrow> py_max (map b_size (first_page_blocks blocks));
             Some (protect_loop max_size (first_page_blocks blocks) {})
           } else Some {}) = Some (noise_protected blocks)"
    using protected_texts_eq [of blocks]
    by (simp add: py_max_eq noise_protected_no_first_page)
  have m: "mark_loop (noise_protected blocks) blocks {} = noise_marked blocks"
    by (simp add: mark_loop_eq noise_marked_alt)
  show ?thesis
    unfolding filter_non_content_def p using False by (simp add: m)
qed

lemma watermark_example_marked: "noise_marked watermark_example = {''CONFIDENTIAL''}"
  by (simp add: noise_marked_def noise_protected_def watermark_example_def lit_0_99_def)

text \<open>
  C4: the noise filter protects the texts of the page-0 blocks of maximal page-0 size,
  marks the text of every unprotected block whose direction is present with
  \<^verbatim>\<open>|dir[0]| < 0.99\<close>, and drops exactly the blocks, on any page, whose text is marked; it
  returns the input unchanged when nothing is marked. In the watermark scenario both
  occurrences of \<^verbatim>\<open>CONFIDENTIAL\<close> are removed and the protected block is kept.
\<close>

theorem filter_non_content_drops_marked:
  "filter_non_content blocks doc =
     Some (if noise_marked blocks = {} then blocks
           else filter (\<lambda>b. b_text b \<notin> noise_marked blocks) blocks)
   \<and> filter_non_content watermark_example doc =
     Some [\<lparr>b_text = ''Quarterly Report'', b_size = 30, b_font = ''Helvetica'',
             b_bbox = (72, 80, 400, 110), b_page = 0, b_dir = Some (1, 0)\<rparr>]"
proof
  show "filter_non_content blocks doc =
     Some (if noise_marked blocks = {} then blocks
           else filter (\<lambda>b. b_text b \<notin> noise_marked blocks) blocks)"
    by (rule filter_non_content_eq)
  show "filter_non_content watermark_example doc =
     Some [\<lparr>b_text = ''Quarterly Report'', b_size = 30, b_font = ''Helvetica'',
             b_bbox = (72, 80, 400, 110), b_page = 0, b_dir = Some (1, 0)\<rparr>]"
    by (simp add: filter_non_content_eq watermark_example_marked)
       (simp add: watermark_example_def)
qed

theorem filter_non_content_drops_marked_witness:
  "noise_protected watermark_example = {''Quarterly Report''}
   \<and> noise_marked watermark_example = {''CONFIDENTIAL''}
   \<and> filter_non_content watermark_example 4 =
       Some (filter (\<lambda>b. b_text b \<notin> {''CONFIDENTIAL''}) watermark_example)"
  using filter_non_content_drops_marked [of watermark_example 4]
  by (simp add: watermark_example_marked)
     (simp add: noise_protected_def watermark_example_def)

section \<open>The end-to-end example\<close>

text \<open>
  C1, as the specification states it, fails: for the one-page document the classifier
  does not return the title \<^verbatim>\<open>Annual Report\<close> with the two numbered lines at level H1.
\<close>

theorem annual_report_one_page_not_strategy1:
  "classify_headings 1 annual_report_example \<noteq>
     Some \<lparr>title = ''Annual Report'',
           outline = [\<lparr>i_level = ''H1'', i_text = ''1. Introduction'', i_page = 0\<rparr>,
                      \<lparr>i_level = ''H1'', i_text = ''2. Methods'', i_page = 0\<rparr>]\<rparr>"
  by code_simp

text \<open>
  C1, amended: a single page with three short blocks is a graphical document, so the
  classifier returns the empty title and the one entry of the largest block. With a
  page count of 2 the first strategy runs on the same blocks: the title is
  \<^verbatim>\<open>Annual Report\<close>, the sizes 24 and 12 map to H1 and H2, and both numbered lines get
  the level H2 of their size, with no numbering override.
\<close>

theorem classify_headings_annual_report:
  "classify_headings 1 annual_report_example =
     Some \<lparr>title = [],
           outline = [\<lparr>i_level = ''H1'', i_text = ''Annual Report'', i_page = 0\<rparr>]\<rparr>
   \<and> classify_headings 2 annual_report_example =
     Some \<lparr>title = ''Annual Report'',
           outline = [\<lparr>i_level = ''H2'', i_text = ''1. Introduction'', i_page = 0\<rparr>,
                      \<lparr>i_level = ''H2'', i_text = ''2. Methods'', i_page = 0\<rparr>]\<rparr>"
proof
  show "classify_headings 1 annual_report_example =
     Some \<lparr>title = [],
           outline = [\<lparr>i_level = ''H1'', i_text = ''Annual Report'', i_page = 0\<rparr>]\<rparr>"
    by code_simp
  show "classify_headings 2 annual_report_example =
     Some \<lparr>title = ''Annual Report'',
           outline = [\<lparr>i_level = ''H2'', i_text = ''1. Introduction'', i_page = 0\<rparr>,
                      \<lparr>i_level = ''H2'', i_text = ''2. Methods'', i_page = 0\<rparr>]\<rparr>"
    by code_simp
qed

section \<open>Document type detection\<close>

lemma is_graphical_doc_eq: "is_graphical_doc doc blocks = Some (spec_is_graphical doc blocks)"
  by (auto simp: is_graphical_doc_def spec_is_graphical_def py_truediv_def Let_def
        filter_empty_conv)

lemma py_first_sort_key:
  assumes "xs \<noteq> []"
  shows "\<exists>x \<in> set xs. (\<forall>y \<in> set xs. f x \<le> f y) \<and> py_first (sort_key f xs) = Some x"
proof (cases "sort_key f xs")
  case Nil
  then have "set (sort_key f xs) = {}" by simp
  with assms show ?thesis by simp
next
  case (Cons x ys)
  have s: "sorted (map f (sort_key f xs))" by (rule sorted_sort_key)
  have m: "set (sort_key f xs) = set xs" by simp
  from s Cons have "\<forall>y \<in> set ys. f x \<le> f y" by simp
  with m Cons show ?thesis by (intro bexI [of _ x]) auto
qed

lemma graphical_result_eq:
  assumes "blocks \<noteq> []"
  shows "\<exists>b \<in> set blocks. (\<forall>b' \<in> set blocks. b_size b' \<le> b_size b)
     \<and> graphical_result blocks =
         Some \<lparr>title = [], outline = [\<lparr>i_level = ''H1'', i_text = clean_text (b_text b),
                                         i_page = b_page b\<rparr>]\<rparr>"
proof -
  from py_first_sort_key [OF assms, of "\<lambda>x. - b_size x"]
  obtain b where "b \<in> set blocks" "\<forall>y \<in> set blocks. - b_size b \<le> - b_size y"
    "py_first (sort_key (\<lambda>x. - b_size x) blocks) = Some b" by blast
  then show ?thesis
    by (intro bexI [of _ b]) (simp_all add: graphical_result_def)
qed

text \<open>
  C3, as the specification states it, fails on the empty block list of a one-page
  document: the condition holds there, and the classifier returns the default title and
  no outline entry.
\<close>

theorem graphical_condition_empty_blocks:
  "spec_is_graphical 1 []
   \<and> classify_headings 1 [] = Some \<lparr>title = ''Title Not Found'', outline = []\<rparr>"
  by (simp add: spec_is_graphical_def classify_headings_def)

text \<open>
  C3, amended to non-empty block lists: the document is classified graphical exactly
  when the page count is 1, there are fewer than 40 blocks, and no block has more than 15
  words or the fraction of such blocks is below one tenth; a graphical document gets the
  empty title and the single entry of a block of maximal size, with the normalised text
  and the page of that block.
\<close>

theorem graphical_classification:
  assumes "blocks \<noteq> []"
  shows "is_graphical_doc doc blocks = Some (spec_is_graphical doc blocks)
   \<and> (spec_is_graphical doc blocks \<longrightarrow>
        (\<exists>b \<in> set blocks. (\<forall>b' \<in> set blocks. b_size b' \<le> b_size b)
           \<and> classify_headings doc blocks =
               Some \<lparr>title = [],
                     outline = [\<lparr>i_level = ''H1'', i_text = clean_text (b_text b),
                                  i_page = b_page b\<rparr>]\<rparr>))"
proof (intro conjI impI)
  show "is_graphical_doc doc blocks = Some (spec_is_graphical doc blocks)"
    by (rule is_graphical_doc_eq)
next
  assume g: "spec_is_graphical doc blocks"
  have "classify_headings doc blocks = graphical_result blocks"
    using assms g by (simp add: classify_headings_def is_graphical_doc_eq)
  with graphical_result_eq [OF assms]
  show "\<exists>b \<in> set blocks. (\<forall>b' \<in> set blocks. b_size b' \<le> b_size b)
           \<and> classify_headings doc blocks =
               Some \<lparr>title = [],
                     outline = [\<lparr>i_level = ''H1'', i_text = clean_text (b_text b),
                                  i_page = b_page b\<rparr>]\<rparr>"
    by simp
qed

theorem graphical_classification_witness:
  "annual_report_example \<noteq> []
   \<and> spec_is_graphical 1 annual_report_example
   \<and> is_graphical_doc 1 annual_report_example = Some True
   \<and> (\<exists>b \<in> set annual_report_example.
         classify_headings 1 annual_report_example =
           Some \<lparr>title = [],
                 outline = [\<lparr>i_level = ''H1'', i_text = clean_text (b_text b),
                              i_page = b_page b\<rparr>]\<rparr>)"
proof -
  have n: "annual_report_example \<noteq> []"
    by (simp add: annual_report_example_def)
  have g: "spec_is_graphical 1 annual_report_example"
    by code_simp
  from graphical_classification [OF n, of 1] g show ?thesis
    using n by auto
qed

section \<open>The title\<close>

lemma title_blocks_eq:
  assumes "first_page_blocks blocks \<noteq> []"
  shows "filter (\<lambda>b. b_size b = Max (set (map b_size (first_page_blocks blocks))))
           (first_page_blocks blocks) = max_size_first_page blocks"
proof -
  let ?fpb = "first_page_blocks blocks"
  have "filter (\<lambda>b. b_size b = Max (set (map b_size ?fpb))) ?fpb
      = filter (\<lambda>b. \<forall>b' \<in> set ?fpb. b_size b' \<le> b_size b) ?fpb"
    by (rule filter_cong) (simp_all add: max_size_iff)
  also have "\<dots> = max_size_first_page blocks"
    unfolding first_page_blocks_def max_size_first_page_def filter_filter
    by (rule filter_cong) auto
  finally show ?thesis .
qed

lemma extract_title_eq:
  assumes "first_page_blocks blocks \<noteq> []"
  shows "extract_title blocks =
     Some (join '' '' (map b_text (sort_key bbox1 (max_size_first_page blocks))),
           map b_text (sort_key bbox1 (max_size_first_page blocks)))"
  using assms title_blocks_eq [OF assms]
  by (simp add: extract_title_def py_max_eq Let_def)

lemma max_size_first_page_perm:
  assumes "mset blocks' = mset blocks"
  shows "mset (max_size_first_page blocks') = mset (max_size_first_page blocks)"
proof -
  have "set blocks' = set blocks" using assms by (rule mset_eq_setD)
  then show ?thesis by (simp add: max_size_first_page_def assms)
qed

lemma first_page_blocks_perm:
  assumes "mset blocks' = mset blocks"
  shows "first_page_blocks blocks' = [] \<longleftrightarrow> first_page_blocks blocks = []"
proof -
  have "set blocks' = set blocks" using assms by (rule mset_eq_setD)
  then show ?thesis by (simp add: first_page_blocks_def filter_empty_conv)
qed

lemma sort_key_perm_inj:
  assumes "mset xs' = mset xs" "inj_on f (set xs)"
  shows "sort_key f xs' = sort_key f xs"
proof -
  have "sort_key f xs = sort_key f xs'"
    by (rule sort_key_inj_key_eq) (simp_all add: assms)
  then show ?thesis by simp
qed

lemma extract_title_perm:
  assumes "mset blocks' = mset blocks" "inj_on bbox1 (set (max_size_first_page blocks))"
  shows "extract_title blocks' = extract_title blocks"
proof (cases "first_page_blocks blocks = []")
  case True
  then have "first_page_blocks blocks' = []"
    using first_page_blocks_perm [OF assms(1)] by simp
  with True show ?thesis by (simp add: extract_title_def)
next
  case False
  then have f': "first_page_blocks blocks' \<noteq> []"
    using first_page_blocks_perm [OF assms(1)] by simp
  have "sort_key bbox1 (max_size_first_page blocks')
      = sort_key bbox1 (max_size_first_page blocks)"
    by (rule sort_key_perm_inj) (rule max_size_first_page_perm [OF assms(1)], rule assms(2))
  then show ?thesis by (simp add: extract_title_eq False f')
qed

text \<open>
  C7, as the specification states it, fails: two title lines of the same size at the same
  height are joined in the order of the input, so a permutation of the input changes the
  title.
\<close>

theorem title_depends_on_input_order:
  "mset [column_right, column_left] = mset [column_left, column_right]
   \<and> extract_title [column_left, column_right] = Some (''Left Right'', [''Left'', ''Right''])
   \<and> extract_title [column_right, column_left] = Some (''Right Left'', [''Right'', ''Left''])"
  by (simp add: extract_title_def first_page_blocks_def column_left_def column_right_def
        bbox1_def add.commute)

text \<open>
  C7, amended: when there is a page-0 block, the title is the texts of the page-0 blocks
  of maximal page-0 size, joined by single blanks in the order of ascending
  \<^verbatim>\<open>bbox[1]\<close>, blocks of equal \<^verbatim>\<open>bbox[1]\<close> staying in the order of the input (the sort is
  stable). A permutation of the input gives the same title when no two of these blocks
  share their \<^verbatim>\<open>bbox[1]\<close>.
\<close>

theorem extract_title_sorted_join:
  assumes "first_page_blocks blocks \<noteq> []"
  shows "extract_title blocks =
     Some (join '' '' (map b_text (sort_key bbox1 (max_size_first_page blocks))),
           map b_text (sort_key bbox1 (max_size_first_page blocks)))
   \<and> (\<forall>blocks'. mset blocks' = mset blocks
          \<and> inj_on bbox1 (set (max_size_first_page blocks))
        \<longrightarrow> extract_title blocks' = extract_title blocks)"
  using extract_title_eq [OF assms] extract_title_perm by blast

theorem extract_title_sorted_join_witness:
  "first_page_blocks two_line_title_example \<noteq> []
   \<and> mset (rev two_line_title_example) = mset two_line_title_example
   \<and> max_size_first_page two_line_title_example
       = [two_line_title_example ! 0, two_line_title_example ! 1]
   \<and> inj_on bbox1 (set (max_size_first_page two_line_title_example))
   \<and> sort_key bbox1 (max_size_first_page two_line_title_example)
       = [two_line_title_example ! 1, two_line_title_example ! 0]
   \<and> extract_title two_line_title_example = Some (''Annual Report'', [''Annual'', ''Report''])
   \<and> extract_title (rev two_line_title_example) = extract_title two_line_title_example"
proof -
  have f: "first_page_blocks two_line_title_example \<noteq> []"
    by (simp add: first_page_blocks_def two_line_title_example_def)
  have m: "max_size_first_page two_line_title_example
      = [two_line_title_example ! 0, two_line_title_example ! 1]"
    by (simp add: max_size_first_page_def two_line_title_example_def)
  have i: "inj_on bbox1 (set (max_size_first_page two_line_title_example))"
    unfolding m by (simp add: two_line_title_example_def bbox1_def)
  have s: "sort_key bbox1 (max_size_first_page two_line_title_example)
      = [two_line_title_example ! 1, two_line_title_example ! 0]"
    unfolding m by (simp add: two_line_title_example_def bbox1_def)
  have t: "b_text (two_line_title_example ! 0) = ''Report''"
    "b_text (two_line_title_example ! 1) = ''Annual''"
    by (simp_all add: two_line_title_example_def)
  have j: "join '' '' [''Annual'', ''Report''] = ''Annual Report''"
    by code_simp
  from extract_title_sorted_join [OF f]
  have e: "extract_title two_line_title_example =
     Some (join '' '' (map b_text (sort_key bbox1 (max_size_first_page two_line_title_example))),
           map b_text (sort_key bbox1 (max_size_first_page two_line_title_example)))"
    and p: "\<forall>blocks'. mset blocks' = mset two_line_title_example
          \<and> inj_on bbox1 (set (max_size_first_page two_line_title_example))
        \<longrightarrow> extract_title blocks' = extract_title two_line_title_example"
    by blast+
  have e': "extract_title two_line_title_example
      = Some (''Annual Report'', [''Annual'', ''Report''])"
    using e unfolding s by (simp only: list.map t j)
  have r: "mset (rev two_line_title_example) = mset two_line_title_example"
    by (rule mset_rev)
  have q: "extract_title (rev two_line_title_example) = extract_title two_line_title_example"
    using p r i by blast
  show ?thesis
    by (intro conjI) (rule f, rule r, rule m, rule i, rule s, rule e', rule q)
qed

section \<open>The final cleanup\<close>

lemma dedup_loop_set:
  "set (dedup_loop items seen final) \<subseteq> set final \<union> set items"
proof (induction items arbitrary: seen final)
  case Nil
  then show ?case by simp
next
  case (Cons a items)
  show ?case
    using Cons.IH [of "insert (i_text a, i_page a) seen" "final @ [a]"] Cons.IH [of seen final]
    by auto
qed

lemma dedup_loop_distinct:
  "distinct (map item_key items) \<Longrightarrow> item_key ` set items \<inter> seen = {}
     \<Longrightarrow> dedup_loop items seen final = final @ items"
proof (induction items arbitrary: seen final)
  case Nil
  then show ?case by simp
next
  case (Cons a items)
  have k: "(i_text a, i_page a) \<notin> seen" using Cons.prems(2) by (auto simp: item_key_def)
  have d: "distinct (map item_key items)" using Cons.prems(1) by simp
  have i: "item_key ` set items \<inter> insert (i_text a, i_page a) seen = {}"
    using Cons.prems by (auto simp: item_key_def)
  show ?case using k Cons.IH [OF d i] by simp
qed

lemma startswith_amp_strip:
  "startswith_amp (strip t) =
     (case dropWhile isspace t of [] \<Rightarrow> False | c # _ \<Rightarrow> c = CHR ''&'')"
proof (cases "dropWhile isspace t")
  case Nil
  then show ?thesis by (simp add: strip_def startswith_amp_def del: dropWhile_eq_Nil_conv)
next
  case (Cons c u)
  have nc: "\<not> isspace c" using Cons hd_dropWhile [of isspace t] by auto
  have "dropWhile isspace (rev u @ [c]) = dropWhile isspace (rev u) @ [c]"
    using nc by (simp add: dropWhile_append)
  then have "strip t = c # rev (dropWhile isspace (rev u))"
    by (simp add: strip_def Cons)
  then show ?thesis by (simp add: startswith_amp_def Cons)
qed

lemma nonblank_dropWhile: "nonblank t \<Longrightarrow> dropWhile isspace t \<noteq> []"
  by (auto simp: nonblank_def dropWhile_eq_Nil_conv)

lemma startswith_amp_append:
  assumes "nonblank t"
  shows "startswith_amp (strip (t @ s)) = startswith_amp (strip t)"
proof -
  obtain c where c: "c \<in> set t" "\<not> isspace c" using assms by (auto simp: nonblank_def)
  then have "dropWhile isspace (t @ s) = dropWhile isspace t @ s"
    by (intro dropWhile_append1) auto
  moreover have "dropWhile isspace t \<noteq> []" using assms by (rule nonblank_dropWhile)
  ultimately show ?thesis
    by (cases "dropWhile isspace t") (simp_all add: startswith_amp_strip)
qed

lemma nonblank_append: "nonblank t \<Longrightarrow> nonblank (t @ s)"
  by (auto simp: nonblank_def)

lemma merge_stable_snoc:
  "xs \<noteq> [] \<Longrightarrow> merge_stable (xs @ [a]) \<longleftrightarrow> merge_stable xs \<and> \<not> mergeable (last xs) a"
  by (induction xs rule: merge_stable.induct) auto

lemma merge_stable_replace_last:
  assumes "xs \<noteq> []" "merge_stable xs" "\<And>q. mergeable q p = mergeable q (last xs)"
  shows "merge_stable (butlast xs @ [p])"
proof (cases "butlast xs = []")
  case True
  then show ?thesis by simp
next
  case False
  have "merge_stable (butlast xs @ [last xs])" using assms(1,2) by simp
  then have "merge_stable (butlast xs) \<and> \<not> mergeable (last (butlast xs)) (last xs)"
    using False by (simp add: merge_stable_snoc)
  then show ?thesis using False assms(3) by (simp add: merge_stable_snoc)
qed

lemma merge_stable_append_left: "merge_stable (xs @ ys) \<Longrightarrow> merge_stable xs"
  by (induction xs rule: merge_stable.induct) auto

lemma merge_loop_step:
  assumes "merged \<noteq> []"
  shows "merge_loop (a # items) merged =
     (if mergeable (last merged) a
      then merge_loop items
             (butlast merged @ [(last merged)\<lparr>i_text := i_text (last merged) @ '' '' @ i_text a\<rparr>])
      else merge_loop items (merged @ [a]))"
  using assms by (simp add: py_last_def mergeable_def)

lemma merge_loop_stable_id:
  "merged \<noteq> [] \<Longrightarrow> merge_stable (merged @ items)
     \<Longrightarrow> merge_loop items merged = Some (merged @ items)"
proof (induction items arbitrary: merged)
  case Nil
  then show ?case by simp
next
  case (Cons a items)
  have s: "merge_stable ((merged @ [a]) @ items)" using Cons.prems(2) by simp
  then have "merge_stable (merged @ [a])" by (rule merge_stable_append_left)
  then have n: "\<not> mergeable (last merged) a"
    using Cons.prems(1) by (simp add: merge_stable_snoc)
  have "merge_loop items (merged @ [a]) = Some ((merged @ [a]) @ items)"
    by (rule Cons.IH) (simp, rule s)
  then show ?case using n Cons.prems(1) by (simp add: merge_loop_step del: merge_loop.simps)
qed

lemma merge_loop_result_stable:
  "merged \<noteq> [] \<Longrightarrow> merge_stable merged \<Longrightarrow> nonblank (i_text (last merged))
     \<Longrightarrow> \<forall>it \<in> set items. nonblank (i_text it)
     \<Longrightarrow> \<exists>r. merge_loop items merged = Some r \<and> r \<noteq> [] \<and> merge_stable r"
proof (induction items arbitrary: merged)
  case Nil
  then show ?case by simp
next
  case (Cons a items)
  let ?p = "(last merged)\<lparr>i_text := i_text (last merged) @ '' '' @ i_text a\<rparr>"
  have it: "\<forall>it \<in> set items. nonblank (i_text it)" using Cons.prems(4) by simp
  show ?case
  proof (cases "mergeable (last merged) a")
    case True
    have q: "\<And>q. mergeable q ?p = mergeable q (last merged)"
      using Cons.prems(3) by (simp add: mergeable_def startswith_amp_append)
    have st: "merge_stable (butlast merged @ [?p])"
      by (rule merge_stable_replace_last) (rule Cons.prems(1), rule Cons.prems(2), rule q)
    have nb: "nonblank (i_text (last (butlast merged @ [?p])))"
      using Cons.prems(3) by (simp add: nonblank_append)
    have "\<exists>r. merge_loop items (butlast merged @ [?p]) = Some r \<and> r \<noteq> [] \<and> merge_stable r"
      by (rule Cons.IH) (simp, rule st, rule nb, rule it)
    then show ?thesis using True Cons.prems(1)
      by (simp add: merge_loop_step del: merge_loop.simps)
  next
    case False
    have st: "merge_stable (merged @ [a])"
      using False Cons.prems(1,2) by (simp add: merge_stable_snoc)
    have nb: "nonblank (i_text (last (merged @ [a])))" using Cons.prems(4) by simp
    have "\<exists>r. merge_loop items (merged @ [a]) = Some r \<and> r \<noteq> [] \<and> merge_stable r"
      by (rule Cons.IH) (simp, rule st, rule nb, rule it)
    then show ?thesis using False Cons.prems(1)
      by (simp add: merge_loop_step del: merge_loop.simps)
  qed
qed

lemma final_cleanup_stable:
  assumes "\<forall>it \<in> set x. nonblank (i_text it)"
  shows "\<exists>y. final_cleanup x = Some y \<and> merge_stable y"
proof (cases "dedup_loop x {} []")
  case Nil
  then show ?thesis by (simp add: final_cleanup_def)
next
  case (Cons a f)
  have sub: "set (a # f) \<subseteq> set x" using dedup_loop_set [of x "{}" "[]"] Cons by simp
  have "\<exists>r. merge_loop f [a] = Some r \<and> r \<noteq> [] \<and> merge_stable r"
    by (rule merge_loop_result_stable) (use sub assms in auto)
  then show ?thesis by (auto simp: final_cleanup_def Cons)
qed

lemma final_cleanup_fixed:
  assumes "merge_stable y" "distinct (map item_key y)"
  shows "final_cleanup y = Some y"
proof (cases y)
  case Nil
  then show ?thesis by (simp add: final_cleanup_def)
next
  case (Cons a f)
  have d: "dedup_loop y {} [] = y"
    using dedup_loop_distinct [OF assms(2), of "{}" "[]"] by simp
  have "merge_loop f [a] = Some ([a] @ f)"
    by (rule merge_loop_stable_id) (use assms(1) Cons in auto)
  then show ?thesis by (simp add: final_cleanup_def d) (simp add: Cons)
qed

text \<open>
  C2, as the specification states it, fails: merging can create an entry whose text and
  page equal those of a later entry, and a second run then removes the later entry as a
  duplicate.
\<close>

theorem final_cleanup_not_idempotent:
  "final_cleanup amp_example =
     Some [\<lparr>i_level = ''H1'', i_text = ''Research & Development'', i_page = 0\<rparr>,
           \<lparr>i_level = ''H1'', i_text = ''Research & Development'', i_page = 0\<rparr>]
   \<and> final_cleanup [\<lparr>i_level = ''H1'', i_text = ''Research & Development'', i_page = 0\<rparr>,
                     \<lparr>i_level = ''H1'', i_text = ''Research & Development'', i_page = 0\<rparr>] =
     Some [\<lparr>i_level = ''H1'', i_text = ''Research & Development'', i_page = 0\<rparr>]"
  by code_simp

text \<open>
  C2, amended: the cleanup returns for every candidate list whose texts are not blank, and
  running it again on its result returns that result whenever the result has no two
  entries with the same text and page.
\<close>

theorem final_cleanup_idempotent:
  assumes "\<forall>it \<in> set x. nonblank (i_text it)"
  shows "\<exists>y. final_cleanup x = Some y
     \<and> (distinct (map item_key y) \<longrightarrow> final_cleanup y = Some y)"
  using final_cleanup_stable [OF assms] final_cleanup_fixed by blast

theorem final_cleanup_idempotent_witness:
  "nonblank ''Research'' \<and> nonblank ''& Development''
   \<and> final_cleanup (take 2 amp_example) =
       Some [\<lparr>i_level = ''H1'', i_text = ''Research & Development'', i_page = 0\<rparr>]
   \<and> distinct (map item_key [\<lparr>i_level = ''H1'', i_text = ''Research & Development'', i_page = 0\<rparr>])
   \<and> final_cleanup [\<lparr>i_level = ''H1'', i_text = ''Research & Development'', i_page = 0\<rparr>] =
       Some [\<lparr>i_level = ''H1'', i_text = ''Research & Development'', i_page = 0\<rparr>]"
proof -
  have n1: "nonblank ''Research''" by code_simp
  have n2: "nonblank ''& Development''" by code_simp
  have h: "\<forall>it \<in> set (take 2 amp_example). nonblank (i_text it)"
    using n1 n2 by (simp add: amp_example_def)
  have v: "final_cleanup (take 2 amp_example) =
       Some [\<lparr>i_level = ''H1'', i_text = ''Research & Development'', i_page = 0\<rparr>]"
    by code_simp
  from final_cleanup_idempotent [OF h] v n1 n2 show ?thesis by simp
qed

section \<open>The numbering pattern\<close>

lemma rx_star_ne: "rx_star p st \<noteq> []"
  by (subst rx_star.simps) simp

lemma rx_cls_group1: "st' \<in> set (rx_cls P st) \<Longrightarrow> group1 st' = group1 st"
  by (auto simp: rx_cls_def split: list.splits if_splits)

lemma rx_star_cls_group1: "st' \<in> set (rx_star (rx_cls P) st) \<Longrightarrow> group1 st' = group1 st"
proof (induction "rx_cls P" st arbitrary: st' rule: rx_star.induct)
  case (1 st)
  from "1.prems" have "st' = st \<or> (\<exists>x \<in> set (rx_cls P st).
      length (rest x) < length (rest st) \<and> st' \<in> set (rx_star (rx_cls P) x))"
    by (subst (asm) rx_star.simps) (auto split: if_splits)
  then show ?case
  proof
    assume "st' = st"
    then show ?thesis by simp
  next
    assume "\<exists>x \<in> set (rx_cls P st).
      length (rest x) < length (rest st) \<and> st' \<in> set (rx_star (rx_cls P) x)"
    then obtain x where x: "x \<in> set (rx_cls P st)" "length (rest x) < length (rest st)"
      "st' \<in> set (rx_star (rx_cls P) x)" by blast
    from "1.hyps" [OF x] have "group1 st' = group1 x" .
    with rx_cls_group1 [OF x(1)] show ?thesis by simp
  qed
qed

lemma rx_star_cons:
  "rx_star p \<lparr>seen_rev = s, rest = c # cs, group1 = g\<rparr> =
     concat (map (\<lambda>st'. if length (rest st') < Suc (length cs) then rx_star p st' else [])
                 (p \<lparr>seen_rev = s, rest = c # cs, group1 = g\<rparr>))
       @ [\<lparr>seen_rev = s, rest = c # cs, group1 = g\<rparr>]"
  by (subst rx_star.simps) simp

lemmas rx_defs = number_pattern_def rx_seqs_def rx_seq_def rx_alt_def rx_opt_def rx_plus_def
  rx_rep12_def rx_grp1_def rx_cls_def rx_chr_def rx_eps_def isspace_def isdigit_def
  isupper_AZ_def

lemma concat_map_rx_eps: "concat (map rx_eps xs) = xs"
  by (induction xs) (simp_all add: rx_eps_def)

lemma number_match_hd:
  assumes "number_pattern \<lparr>seen_rev = [], rest = s, group1 = None\<rparr> = rx_star (rx_cls P) st"
  shows "number_match s = group1 st"
proof -
  obtain x xs where x: "rx_star (rx_cls P) st = x # xs"
    using rx_star_ne [of "rx_cls P" st] by (cases "rx_star (rx_cls P) st") auto
  then have "x \<in> set (rx_star (rx_cls P) st)" by simp
  then have "group1 x = group1 st" by (rule rx_star_cls_group1)
  then show ?thesis by (simp add: number_match_def re_match_def assms x)
qed

lemma number_match_2_1: "number_match (''2.1 '' @ r) = Some ''2.1''"
proof -
  have "number_pattern \<lparr>seen_rev = [], rest = ''2.1 '' @ r, group1 = None\<rparr>
      = rx_star (rx_cls isspace) \<lparr>seen_rev = '' 1.2'', rest = r, group1 = Some ''2.1''\<rparr>"
    by (simp add: rx_defs rx_star_cons concat_map_rx_eps)
  then show ?thesis by (simp add: number_match_hd)
qed

lemma number_match_2_1_4_9: "number_match (''2.1.4.9 '' @ r) = Some ''2.1.4.9''"
proof -
  have "number_pattern \<lparr>seen_rev = [], rest = ''2.1.4.9 '' @ r, group1 = None\<rparr>
      = rx_star (rx_cls isspace) \<lparr>seen_rev = '' 9.4.1.2'', rest = r, group1 = Some ''2.1.4.9''\<rparr>"
    by (simp add: rx_defs rx_star_cons concat_map_rx_eps)
  then show ?thesis by (simp add: number_match_hd)
qed

lemma set_rx_seq: "set (rx_seq p q st) = (\<Union>x \<in> set (p st). set (q x))"
  by (simp add: rx_seq_def)


lemma rx_opt_cls_group1: "st' \<in> set (rx_opt (rx_cls P) st) \<Longrightarrow> group1 st' = group1 st"
  by (auto simp: rx_opt_def dest: rx_cls_group1)

lemma rx_plus_cls_group1:
  assumes "st' \<in> set (rx_plus (rx_cls P) st)"
  shows "group1 st' = group1 st"
proof -
  from assms obtain x where x: "x \<in> set (rx_cls P st)" "st' \<in> set (rx_star (rx_cls P) x)"
    by (auto simp: rx_plus_def set_rx_seq)
  from rx_star_cls_group1 [OF x(2)] rx_cls_group1 [OF x(1)] show ?thesis by simp
qed



lemma char_classes:
  "isdigit c \<Longrightarrow> \<not> isspace c" "isdigit c \<Longrightarrow> \<not> isupper_AZ c" "isdigit c \<Longrightarrow> c \<noteq> CHR ''.''"
  "isupper_AZ c \<Longrightarrow> \<not> isspace c" "isupper_AZ c \<Longrightarrow> \<not> isdigit c"
  "isspace c \<Longrightarrow> c \<noteq> CHR ''.''" "isspace c \<Longrightarrow> \<not> isdigit c"
  by (auto simp: isdigit_def isspace_def isupper_AZ_def Let_def)

lemma rx_seq_hd:
  assumes "p st = x # xs" "q x \<noteq> []"
  shows "rx_seq p q st \<noteq> [] \<and> hd (rx_seq p q st) = hd (q x)"
  using assms by (simp add: rx_seq_def)

lemma advance_Nil: "advance [] st = st"
  by (simp add: advance_def)

lemma rx_cls_hit:
  "rest st = c # cs \<Longrightarrow> P c \<Longrightarrow> rx_cls P st = [advance [c] st]"
  by (simp add: rx_cls_def advance_def)

lemma rx_cls_miss:
  "rest st = c # cs \<Longrightarrow> \<not> P c \<Longrightarrow> rx_cls P st = []"
  by (simp add: rx_cls_def)

lemma rx_cls_end: "rest st = [] \<Longrightarrow> rx_cls P st = []"
  by (simp add: rx_cls_def)

lemma advance_advance: "advance v (advance u st) = advance (u @ v) st"
  by (simp add: advance_def add.commute)

lemma seen_rev_advance: "seen_rev (advance u st) = rev u @ seen_rev st"
  by (simp add: advance_def)

lemma rx_star_spaces_hd:
  "rest st = ws @ tl' \<Longrightarrow> \<forall>c \<in> set ws. P c \<Longrightarrow> (tl' = [] \<or> \<not> P (hd tl'))
     \<Longrightarrow> hd (rx_star (rx_cls P) st) = advance ws st"
proof (induction ws arbitrary: st)
  case Nil
  have "rx_cls P st = []"
  proof (cases tl')
    case Nil
    then show ?thesis using Nil.prems by (simp add: rx_cls_end)
  next
    case (Cons a list)
    then show ?thesis using Nil.prems by (simp add: rx_cls_miss)
  qed
  then show ?case by (subst rx_star.simps) (simp add: advance_Nil)
next
  case (Cons c ws)
  have r: "rest st = c # (ws @ tl')" using Cons.prems(1) by simp
  have pc: "P c" using Cons.prems(2) by simp
  have h: "rx_cls P st = [advance [c] st]" using r pc by (rule rx_cls_hit)
  have r': "rest (advance [c] st) = ws @ tl'" using r by (simp add: advance_def)
  have ih: "hd (rx_star (rx_cls P) (advance [c] st)) = advance ws (advance [c] st)"
    by (rule Cons.IH) (use r' Cons.prems in auto)
  have ne: "rx_star (rx_cls P) (advance [c] st) \<noteq> []" by (rule rx_star_ne)
  have "rx_star (rx_cls P) st = rx_star (rx_cls P) (advance [c] st) @ [st]"
    by (subst rx_star.simps) (simp add: h r r')
  then show ?case using ne ih by (simp add: advance_advance)
qed

lemma rx_star_spaces_first:
  assumes "rest st = ws @ tl'" "\<forall>c \<in> set ws. P c" "tl' = [] \<or> \<not> P (hd tl')"
  shows "\<exists>xs. rx_star (rx_cls P) st = advance ws st # xs"
proof -
  have "rx_star (rx_cls P) st \<noteq> []" by (rule rx_star_ne)
  then have "rx_star (rx_cls P) st = hd (rx_star (rx_cls P) st) # tl (rx_star (rx_cls P) st)"
    by simp
  with rx_star_spaces_hd [OF assms] show ?thesis by metis
qed

lemma rx_seq_first:
  assumes "p st = x # xs" "q x = y # ys"
  shows "\<exists>zs. rx_seq p q st = y # zs"
  using assms by (simp add: rx_seq_def)

lemma rx_rep12_first:
  assumes "rest st = n @ tl'" "digits12 n" "tl' = [] \<or> \<not> isdigit (hd tl')"
  shows "\<exists>xs. rx_rep12 (rx_cls isdigit) st = advance n st # xs"
proof -
  from assms(2) consider c where "n = [c]" "isdigit c"
    | c d where "n = [c, d]" "isdigit c" "isdigit d"
    by (auto simp: digits12_def length_Suc_conv numeral_2_eq_2)
  then show ?thesis
  proof cases
    case 1
    have a: "rx_cls isdigit st = [advance [c] st]"
      using assms(1) 1 by (intro rx_cls_hit [where cs = tl']) auto
    have "rx_cls isdigit (advance [c] st) = []"
    proof (cases tl')
      case Nil
      then show ?thesis using assms(1) 1 by (intro rx_cls_end) (simp add: advance_def)
    next
      case (Cons e es)
      then have "\<not> isdigit e" using assms(3) by simp
      then show ?thesis using assms(1) 1 Cons
        by (intro rx_cls_miss [where c = e and cs = es]) (simp_all add: advance_def)
    qed
    then show ?thesis using a 1 by (simp add: rx_rep12_def rx_seq_def rx_opt_def)
  next
    case 2
    have a: "rx_cls isdigit st = [advance [c] st]"
      using assms(1) 2 by (intro rx_cls_hit [where cs = "d # tl'"]) auto
    have b: "rx_cls isdigit (advance [c] st) = [advance [d] (advance [c] st)]"
      using assms(1) 2 by (intro rx_cls_hit [where cs = tl']) (simp_all add: advance_def)
    show ?thesis using a b 2 by (simp add: rx_rep12_def rx_seq_def rx_opt_def advance_advance)
  qed
qed

lemma join_dots: "join ''.'' (n # ns) = n @ concat (map (\<lambda>m. ''.'' @ m) ns)"
  by (induction ns arbitrary: n) simp_all

lemma dotted_tail_first:
  assumes "rest st = concat (map (\<lambda>m. ''.'' @ m) ns) @ dot @ sp # r"
    "\<forall>n \<in> set ns. digits12 n" "dot = [] \<or> dot = ''.''" "isspace sp"
  shows "\<exists>xs. rx_star (rx_seq (rx_chr CHR ''.'') (rx_rep12 (rx_cls isdigit))) st
           = advance (concat (map (\<lambda>m. ''.'' @ m) ns)) st # xs"
  using assms(1,2)
proof (induction ns arbitrary: st)
  case Nil
  let ?S = "rx_seq (rx_chr CHR ''.'') (rx_rep12 (rx_cls isdigit))"
  have r: "rest st = dot @ sp # r" using Nil.prems(1) by simp
  have "?S st = []"
  proof (cases "dot = []")
    case True
    have "rx_cls (\<lambda>c. c = CHR ''.'') st = []"
      using r True char_classes(6) [OF assms(4)]
      by (intro rx_cls_miss [where c = sp and cs = r]) simp_all
    then show ?thesis by (simp add: rx_seq_def rx_chr_def)
  next
    case False
    then have d: "dot = ''.''" using assms(3) by simp
    have a: "rx_cls (\<lambda>c. c = CHR ''.'') st = [advance ''.'' st]"
      using r d by (intro rx_cls_hit [where cs = "sp # r"]) simp_all
    have "rx_cls isdigit (advance ''.'' st) = []"
      using r d char_classes(7) [OF assms(4)]
      by (intro rx_cls_miss [where c = sp and cs = r]) (simp_all add: advance_def)
    then show ?thesis using a by (simp add: rx_seq_def rx_chr_def rx_rep12_def)
  qed
  then show ?case by (subst rx_star.simps) (simp add: advance_Nil)
next
  case (Cons n ns)
  let ?S = "rx_seq (rx_chr CHR ''.'') (rx_rep12 (rx_cls isdigit))"
  let ?u = "concat (map (\<lambda>m. ''.'' @ m) ns)"
  have dn: "digits12 n" using Cons.prems(2) by simp
  have r: "rest st = CHR ''.'' # (n @ ?u @ dot @ sp # r)" using Cons.prems(1) by simp
  have a: "rx_cls (\<lambda>c. c = CHR ''.'') st = [advance ''.'' st]"
    using r by (intro rx_cls_hit [where cs = "n @ ?u @ dot @ sp # r"]) simp_all
  have r1: "rest (advance ''.'' st) = n @ (?u @ dot @ sp # r)" using r by (simp add: advance_def)
  have nd: "?u @ dot @ sp # r = [] \<or> \<not> isdigit (hd (?u @ dot @ sp # r))"
  proof (cases ns)
    case Nil
    then show ?thesis using assms(3) char_classes(7) [OF assms(4)]
      by (auto simp: isdigit_def)
  next
    case (Cons m ms)
    then show ?thesis by (simp add: isdigit_def)
  qed
  from rx_rep12_first [OF r1 dn nd] obtain xs where
    b: "rx_rep12 (rx_cls isdigit) (advance ''.'' st) = advance n (advance ''.'' st) # xs" by blast
  let ?x = "advance (''.'' @ n) st"
  have s: "?S st = ?x # xs" using a b by (simp add: rx_seq_def rx_chr_def advance_advance)
  have rx: "rest ?x = ?u @ dot @ sp # r" using r by (simp add: advance_def)
  have lt: "length (rest ?x) < length (rest st)" using r by (simp add: advance_def)
  from Cons.IH [OF rx] Cons.prems(2) obtain ys where
    ih: "rx_star ?S ?x = advance ?u ?x # ys" by auto
  have "rx_star ?S st
      = concat (map (\<lambda>st'. if length (rest st') < length (rest st) then rx_star ?S st' else [])
          (?S st)) @ [st]"
    by (rule rx_star.simps)
  then show ?case using s lt ih by (simp add: advance_advance)
qed

lemma group_body_first:
  assumes "rest st = g @ dot @ sp # r" "dot = [] \<or> dot = ''.''" "isspace sp"
    "(\<exists>c. g = [c] \<and> isupper_AZ c)
     \<or> (\<exists>ns. ns \<noteq> [] \<and> (\<forall>n \<in> set ns. digits12 n) \<and> g = join ''.'' ns)"
  shows "\<exists>xs. rx_alt (rx_cls isupper_AZ)
                 (rx_seq (rx_rep12 (rx_cls isdigit))
                         (rx_star (rx_seq (rx_chr CHR ''.'') (rx_rep12 (rx_cls isdigit))))) st
           = advance g st # xs"
  using assms(4)
proof
  assume "\<exists>c. g = [c] \<and> isupper_AZ c"
  then obtain c where c: "g = [c]" "isupper_AZ c" by blast
  have "rx_cls isupper_AZ st = [advance [c] st]"
    using assms(1) c by (intro rx_cls_hit [where cs = "dot @ sp # r"]) simp_all
  then show ?thesis using c by (simp add: rx_alt_def)
next
  assume "\<exists>ns. ns \<noteq> [] \<and> (\<forall>n \<in> set ns. digits12 n) \<and> g = join ''.'' ns"
  then obtain n ns where ns: "\<forall>m \<in> set (n # ns). digits12 m" "g = join ''.'' (n # ns)"
    by (metis list.exhaust)
  let ?u = "concat (map (\<lambda>m. ''.'' @ m) ns)"
  have g: "g = n @ ?u" using ns(2) by (simp only: join_dots)
  have dn: "digits12 n" using ns(1) by simp
  obtain c cs where n: "n = c # cs" "isdigit c"
    using dn by (cases n) (auto simp: digits12_def)
  have r: "rest st = n @ (?u @ dot @ sp # r)" using assms(1) g by simp
  have "rx_cls isupper_AZ st = []"
    using r n char_classes(2) [OF n(2)]
    by (intro rx_cls_miss [where c = c and cs = "cs @ ?u @ dot @ sp # r"]) simp_all
  then have alt: "rx_alt (rx_cls isupper_AZ)
                 (rx_seq (rx_rep12 (rx_cls isdigit))
                         (rx_star (rx_seq (rx_chr CHR ''.'') (rx_rep12 (rx_cls isdigit))))) st
      = rx_seq (rx_rep12 (rx_cls isdigit))
               (rx_star (rx_seq (rx_chr CHR ''.'') (rx_rep12 (rx_cls isdigit)))) st"
    by (simp add: rx_alt_def)
  have nd: "?u @ dot @ sp # r = [] \<or> \<not> isdigit (hd (?u @ dot @ sp # r))"
  proof (cases ns)
    case Nil
    then show ?thesis using assms(2) char_classes(7) [OF assms(3)]
      by (auto simp: isdigit_def)
  next
    case (Cons m ms)
    then show ?thesis by (simp add: isdigit_def)
  qed
  from rx_rep12_first [OF r dn nd] obtain xs where
    a: "rx_rep12 (rx_cls isdigit) st = advance n st # xs" by blast
  have r1: "rest (advance n st) = ?u @ dot @ sp # r" using r by (simp add: advance_def)
  from dotted_tail_first [OF r1 _ assms(2) assms(3)] ns(1) obtain ys where
    b: "rx_star (rx_seq (rx_chr CHR ''.'') (rx_rep12 (rx_cls isdigit))) (advance n st)
         = advance ?u (advance n st) # ys" by auto
  have "\<exists>zs. rx_seq (rx_rep12 (rx_cls isdigit))
               (rx_star (rx_seq (rx_chr CHR ''.'') (rx_rep12 (rx_cls isdigit)))) st
          = advance ?u (advance n st) # zs"
    by (rule rx_seq_first) (rule a, rule b)
  then show ?thesis
    unfolding alt by (simp add: advance_advance g)
qed

lemma rx_grp1_first:
  assumes "p st = advance g st # xs"
  shows "\<exists>ys. rx_grp1 p st = (advance g st)\<lparr>group1 := Some g\<rparr> # ys"
  using assms by (simp add: rx_grp1_def seen_rev_advance)

lemma tail_nonempty:
  assumes "rest st = dot @ sp # r" "dot = [] \<or> dot = ''.''" "isspace sp"
  shows "rx_seq (rx_opt (rx_chr CHR ''.'')) (rx_seq (rx_plus (rx_cls isspace)) rx_eps) st \<noteq> []"
proof -
  have plus: "rx_plus (rx_cls isspace) x \<noteq> []" if "rest x = sp # r" for x
  proof -
    have "rx_cls isspace x = [advance [sp] x]"
      using that assms(3) by (intro rx_cls_hit [where cs = r]) simp_all
    moreover obtain y ys where "rx_star (rx_cls isspace) (advance [sp] x) = y # ys"
      using rx_star_ne [of "rx_cls isspace" "advance [sp] x"]
      by (cases "rx_star (rx_cls isspace) (advance [sp] x)") auto
    ultimately show ?thesis by (simp add: rx_plus_def rx_seq_def)
  qed
  have e: "rx_seq (rx_plus (rx_cls isspace)) rx_eps x = rx_plus (rx_cls isspace) x" for x
    by (simp add: rx_seq_def concat_map_rx_eps)
  show ?thesis
  proof (cases "dot = []")
    case True
    have "rx_cls (\<lambda>c. c = CHR ''.'') st = []"
      using assms(1) True char_classes(6) [OF assms(3)]
      by (intro rx_cls_miss [where c = sp and cs = r]) simp_all
    then have "rx_opt (rx_chr CHR ''.'') st = [st]" by (simp add: rx_opt_def rx_chr_def)
    moreover have "rx_plus (rx_cls isspace) st \<noteq> []"
      using assms(1) True by (intro plus) simp
    ultimately show ?thesis by (simp add: rx_seq_def [of "rx_opt (rx_chr CHR ''.'')"] e)
  next
    case False
    then have d: "dot = ''.''" using assms(2) by simp
    have "rx_cls (\<lambda>c. c = CHR ''.'') st = [advance ''.'' st]"
      using assms(1) d by (intro rx_cls_hit [where cs = "sp # r"]) simp_all
    then have "rx_opt (rx_chr CHR ''.'') st = [advance ''.'' st, st]"
      by (simp add: rx_opt_def rx_chr_def)
    moreover have "rx_plus (rx_cls isspace) (advance ''.'' st) \<noteq> []"
      using assms(1) d by (intro plus) (simp add: advance_def)
    ultimately show ?thesis by (simp add: rx_seq_def [of "rx_opt (rx_chr CHR ''.'')"] e)
  qed
qed

lemma tail_group1:
  assumes "x \<in> set (rx_seq (rx_opt (rx_chr CHR ''.'')) (rx_seq (rx_plus (rx_cls isspace)) rx_eps) st)"
  shows "group1 x = group1 st"
proof -
  from assms obtain s3 where s3: "s3 \<in> set (rx_opt (rx_cls (\<lambda>c. c = CHR ''.'')) st)"
    and x: "x \<in> set (rx_plus (rx_cls isspace) s3)"
    by (auto simp: set_rx_seq rx_eps_def rx_chr_def)
  from rx_plus_cls_group1 [OF x] rx_opt_cls_group1 [OF s3] show ?thesis by simp
qed

lemma number_match_prefix:
  assumes "numbering_prefix g t"
  shows "number_match t = Some g"
proof -
  from assms obtain ws dot sp r where t: "t = ws @ g @ dot @ sp # r"
    and ws: "\<forall>c \<in> set ws. isspace c" and dot: "dot = [] \<or> dot = ''.''" and sp: "isspace sp"
    and g: "(\<exists>c. g = [c] \<and> isupper_AZ c)
       \<or> (\<exists>ns. ns \<noteq> [] \<and> (\<forall>n \<in> set ns. digits12 n) \<and> g = join ''.'' ns)"
    unfolding numbering_prefix_def starts_with_numbering_def by blast
  let ?st0 = "\<lparr>seen_rev = [], rest = t, group1 = None\<rparr>"
  let ?G = "rx_alt (rx_cls isupper_AZ)
                 (rx_seq (rx_rep12 (rx_cls isdigit))
                         (rx_star (rx_seq (rx_chr CHR ''.'') (rx_rep12 (rx_cls isdigit)))))"
  let ?C = "rx_seq (rx_opt (rx_chr CHR ''.'')) (rx_seq (rx_plus (rx_cls isspace)) rx_eps)"
  have g0: "g \<noteq> [] \<and> \<not> isspace (hd g)"
    using g
  proof
    assume "\<exists>c. g = [c] \<and> isupper_AZ c"
    then show ?thesis using char_classes(4) by auto
  next
    assume "\<exists>ns. ns \<noteq> [] \<and> (\<forall>n \<in> set ns. digits12 n) \<and> g = join ''.'' ns"
    then obtain n ns where ns: "\<forall>m \<in> set (n # ns). digits12 m" "g = join ''.'' (n # ns)"
      by (metis list.exhaust)
    then obtain c cs where "n = c # cs" "isdigit c"
      by (cases n) (auto simp: digits12_def)
    then show ?thesis using ns(2) char_classes(1) by (simp add: join_dots)
  qed
  have r0: "rest ?st0 = ws @ (g @ dot @ sp # r)" by (simp add: t)
  have "g @ dot @ sp # r = [] \<or> \<not> isspace (hd (g @ dot @ sp # r))" using g0 by simp
  from rx_star_spaces_first [OF r0 ws this] obtain xs where
    a: "rx_star (rx_cls isspace) ?st0 = advance ws ?st0 # xs" by blast
  let ?st1 = "advance ws ?st0"
  have r1: "rest ?st1 = g @ dot @ sp # r" by (simp add: advance_def t)
  from group_body_first [OF r1 dot sp g] obtain ys where b: "?G ?st1 = advance g ?st1 # ys"
    by blast
  have "\<exists>zs. rx_grp1 ?G ?st1 = (advance g ?st1)\<lparr>group1 := Some g\<rparr> # zs"
    by (rule rx_grp1_first) (rule b)
  then obtain zs where
    c: "rx_grp1 ?G ?st1 = (advance g ?st1)\<lparr>group1 := Some g\<rparr> # zs" by blast
  let ?st2 = "(advance g ?st1)\<lparr>group1 := Some g\<rparr>"
  have r2: "rest ?st2 = dot @ sp # r" by (simp add: advance_def t)
  obtain y ys' where d: "?C ?st2 = y # ys'"
    using tail_nonempty [OF r2 dot sp] by (cases "?C ?st2") auto
  have gy: "group1 y = Some g"
    using tail_group1 [of y ?st2] d by simp
  have "\<exists>zs. rx_seq (rx_grp1 ?G) ?C ?st1 = y # zs"
    by (rule rx_seq_first) (rule c, rule d)
  then obtain zs' where e: "rx_seq (rx_grp1 ?G) ?C ?st1 = y # zs'" by blast
  have "\<exists>zs. rx_seq (rx_star (rx_cls isspace)) (rx_seq (rx_grp1 ?G) ?C) ?st0 = y # zs"
    by (rule rx_seq_first) (rule a, rule e)
  then obtain zs'' where
    f: "rx_seq (rx_star (rx_cls isspace)) (rx_seq (rx_grp1 ?G) ?C) ?st0 = y # zs''" by blast
  have "number_pattern = rx_seq (rx_star (rx_cls isspace)) (rx_seq (rx_grp1 ?G) ?C)"
    by (simp add: number_pattern_def rx_seqs_def)
  then show ?thesis using f gy by (simp add: number_match_def re_match_def)
qed

lemma consumesD:
  "consumes p L \<Longrightarrow> x \<in> set (p st) \<Longrightarrow> \<exists>u. L u \<and> prefix u (rest st) \<and> x = advance u st"
  by (simp add: consumes_def)

lemma consumes_mono: "consumes p L \<Longrightarrow> (\<And>u. L u \<Longrightarrow> L' u) \<Longrightarrow> consumes p L'"
  unfolding consumes_def by blast

lemma consumes_cls: "consumes (rx_cls P) (\<lambda>u. \<exists>c. u = [c] \<and> P c)"
  unfolding consumes_def
proof (intro allI impI)
  fix st x
  assume x: "x \<in> set (rx_cls P st)"
  then obtain c cs where r: "rest st = c # cs" "P c"
    by (cases "rest st") (auto simp: rx_cls_def split: if_splits)
  then have "x = advance [c] st" using x by (simp add: rx_cls_hit)
  moreover have "prefix [c] (rest st)" using r by simp
  ultimately show "\<exists>u. (\<exists>c. u = [c] \<and> P c) \<and> prefix u (rest st) \<and> x = advance u st"
    using r(2) by blast
qed

lemma consumes_eps: "consumes rx_eps (\<lambda>u. u = [])"
  unfolding consumes_def by (simp add: rx_eps_def advance_def)

lemma prefix_advance:
  assumes "prefix a (rest st)" "prefix b (rest (advance a st))"
  shows "prefix (a @ b) (rest st)"
proof -
  from assms(1) obtain ta where ta: "rest st = a @ ta" by (auto simp: prefix_def)
  then have "rest (advance a st) = ta" by (simp add: advance_def)
  with assms(2) obtain tb where "ta = b @ tb" by (auto simp: prefix_def)
  with ta show ?thesis by (simp add: prefix_def)
qed

lemma consumes_seq:
  assumes "consumes p L1" "consumes q L2"
  shows "consumes (rx_seq p q) (\<lambda>u. \<exists>a b. u = a @ b \<and> L1 a \<and> L2 b)"
  unfolding consumes_def
proof (intro allI impI)
  fix st x
  assume "x \<in> set (rx_seq p q st)"
  then obtain y where y: "y \<in> set (p st)" "x \<in> set (q y)" by (auto simp: set_rx_seq)
  from consumesD [OF assms(1) y(1)] obtain a where
    a: "L1 a" "prefix a (rest st)" "y = advance a st" by blast
  from consumesD [OF assms(2) y(2)] obtain b where
    b: "L2 b" "prefix b (rest y)" "x = advance b y" by blast
  have "prefix (a @ b) (rest st)" using a(2) b(2) unfolding a(3) by (rule prefix_advance)
  moreover have "x = advance (a @ b) st" using a(3) b(3) by (simp add: advance_advance)
  ultimately show "\<exists>u. (\<exists>a b. u = a @ b \<and> L1 a \<and> L2 b) \<and> prefix u (rest st) \<and> x = advance u st"
    using a(1) b(1) by blast
qed

lemma consumes_alt:
  assumes "consumes p L1" "consumes q L2"
  shows "consumes (rx_alt p q) (\<lambda>u. L1 u \<or> L2 u)"
  unfolding consumes_def
proof (intro allI impI)
  fix st x
  assume "x \<in> set (rx_alt p q st)"
  then have "x \<in> set (p st) \<or> x \<in> set (q st)" by (simp add: rx_alt_def)
  then show "\<exists>u. (L1 u \<or> L2 u) \<and> prefix u (rest st) \<and> x = advance u st"
    using consumesD [OF assms(1), of x st] consumesD [OF assms(2), of x st] by blast
qed

lemma consumes_opt:
  assumes "consumes p L"
  shows "consumes (rx_opt p) (\<lambda>u. u = [] \<or> L u)"
  using assms unfolding consumes_def rx_opt_def by (auto simp: advance_Nil)

lemma consumes_star:
  assumes "consumes p L"
  shows "consumes (rx_star p) (\<lambda>u. \<exists>us. u = concat us \<and> (\<forall>a \<in> set us. L a))"
  unfolding consumes_def
proof (intro allI impI)
  fix st x
  assume "x \<in> set (rx_star p st)"
  with assms show "\<exists>u. (\<exists>us. u = concat us \<and> (\<forall>a \<in> set us. L a)) \<and> prefix u (rest st)
      \<and> x = advance u st"
  proof (induction p st arbitrary: x rule: rx_star.induct)
    case (1 p st)
    from "1.prems"(2) have "x = st \<or> (\<exists>y \<in> set (p st).
        length (rest y) < length (rest st) \<and> x \<in> set (rx_star p y))"
      by (subst (asm) rx_star.simps) (auto split: if_splits)
    then show ?case
    proof
      assume "x = st"
      then have "x = advance [] st" by (simp add: advance_Nil)
      moreover have "\<exists>us. [] = concat us \<and> (\<forall>a \<in> set us. L a)"
        by (rule exI [of _ "[]"]) simp
      ultimately show ?thesis by (intro exI [of _ "[]"]) simp
    next
      assume "\<exists>y \<in> set (p st). length (rest y) < length (rest st) \<and> x \<in> set (rx_star p y)"
      then obtain y where y: "y \<in> set (p st)" "length (rest y) < length (rest st)"
        "x \<in> set (rx_star p y)" by blast
      from "1.IH" [OF y(1) y(2) "1.prems"(1) y(3)] obtain us where
        us: "\<forall>a \<in> set us. L a" "prefix (concat us) (rest y)" "x = advance (concat us) y"
        by blast
      from consumesD [OF "1.prems"(1) y(1)] obtain a where
        a: "L a" "prefix a (rest st)" "y = advance a st" by blast
      have "prefix (a @ concat us) (rest st)"
        using a(2) us(2) unfolding a(3) by (rule prefix_advance)
      moreover have "x = advance (a @ concat us) st"
        using a(3) us(3) by (simp add: advance_advance)
      moreover have "\<exists>vs. a @ concat us = concat vs \<and> (\<forall>b \<in> set vs. L b)"
        using a(1) us(1) by (intro exI [of _ "a # us"]) simp
      ultimately show ?thesis by (intro exI [of _ "a @ concat us"]) simp
    qed
  qed
qed

lemma consumes_spaces: "consumes (rx_star (rx_cls P)) (\<lambda>u. \<forall>c \<in> set u. P c)"
proof (rule consumes_mono [OF consumes_star [OF consumes_cls]])
  fix u
  assume "\<exists>us. u = concat us \<and> (\<forall>a \<in> set us. \<exists>c. a = [c] \<and> P c)"
  then obtain us where us: "u = concat us" "\<forall>a \<in> set us. \<exists>c. a = [c] \<and> P c" by blast
  show "\<forall>c \<in> set u. P c"
  proof
    fix c
    assume "c \<in> set u"
    then obtain a where a: "a \<in> set us" "c \<in> set a" using us(1) by auto
    with us(2) obtain d where "a = [d]" "P d" by blast
    with a(2) show "P c" by simp
  qed
qed

lemma consumes_rep12: "consumes (rx_rep12 (rx_cls isdigit)) digits12"
  unfolding rx_rep12_def
  by (rule consumes_mono [OF consumes_seq [OF consumes_cls consumes_opt [OF consumes_cls]]])
     (auto simp: digits12_def)

lemma consumes_dot_number:
  "consumes (rx_seq (rx_chr CHR ''.'') (rx_rep12 (rx_cls isdigit)))
     (\<lambda>u. \<exists>n. u = ''.'' @ n \<and> digits12 n)"
  unfolding rx_chr_def
  by (rule consumes_mono [OF consumes_seq [OF consumes_cls consumes_rep12]]) auto

lemma concat_dotted:
  "\<forall>a \<in> set us. \<exists>n. a = ''.'' @ n \<and> digits12 n
     \<Longrightarrow> \<exists>ns. (\<forall>n \<in> set ns. digits12 n) \<and> concat us = concat (map (\<lambda>m. ''.'' @ m) ns)"
proof (induction us)
  case Nil
  show ?case by (rule exI [of _ "[]"]) simp
next
  case (Cons a us)
  then obtain n where n: "a = ''.'' @ n" "digits12 n" by auto
  from Cons obtain ns where ns: "\<forall>n \<in> set ns. digits12 n"
    "concat us = concat (map (\<lambda>m. ''.'' @ m) ns)" by auto
  show ?case using n ns by (intro exI [of _ "n # ns"]) simp
qed

lemma consumes_dotted_tail:
  "consumes (rx_star (rx_seq (rx_chr CHR ''.'') (rx_rep12 (rx_cls isdigit))))
     (\<lambda>u. \<exists>ns. (\<forall>n \<in> set ns. digits12 n) \<and> u = concat (map (\<lambda>m. ''.'' @ m) ns))"
  by (rule consumes_mono [OF consumes_star [OF consumes_dot_number]]) (use concat_dotted in blast)

lemma consumes_group_body:
  "consumes (rx_alt (rx_cls isupper_AZ)
                 (rx_seq (rx_rep12 (rx_cls isdigit))
                         (rx_star (rx_seq (rx_chr CHR ''.'') (rx_rep12 (rx_cls isdigit))))))
     (\<lambda>g. (\<exists>c. g = [c] \<and> isupper_AZ c)
        \<or> (\<exists>ns. ns \<noteq> [] \<and> (\<forall>n \<in> set ns. digits12 n) \<and> g = join ''.'' ns))"
proof (rule consumes_mono [OF consumes_alt [OF consumes_cls
        consumes_seq [OF consumes_rep12 consumes_dotted_tail]]])
  fix u
  assume "(\<exists>c. u = [c] \<and> isupper_AZ c)
     \<or> (\<exists>a b. u = a @ b \<and> digits12 a
          \<and> (\<exists>ns. (\<forall>n \<in> set ns. digits12 n) \<and> b = concat (map (\<lambda>m. ''.'' @ m) ns)))"
  then show "(\<exists>c. u = [c] \<and> isupper_AZ c)
        \<or> (\<exists>ns. ns \<noteq> [] \<and> (\<forall>n \<in> set ns. digits12 n) \<and> u = join ''.'' ns)"
  proof
    assume "\<exists>c. u = [c] \<and> isupper_AZ c"
    then show ?thesis by blast
  next
    assume "\<exists>a b. u = a @ b \<and> digits12 a
          \<and> (\<exists>ns. (\<forall>n \<in> set ns. digits12 n) \<and> b = concat (map (\<lambda>m. ''.'' @ m) ns))"
    then obtain a ns where "digits12 a" "\<forall>n \<in> set ns. digits12 n"
      "u = a @ concat (map (\<lambda>m. ''.'' @ m) ns)" by blast
    then have "(a # ns) \<noteq> [] \<and> (\<forall>n \<in> set (a # ns). digits12 n) \<and> u = join ''.'' (a # ns)"
      by (simp only: join_dots) simp
    then show ?thesis by blast
  qed
qed

lemma consumes_tail:
  "consumes (rx_seq (rx_opt (rx_chr CHR ''.'')) (rx_seq (rx_plus (rx_cls isspace)) rx_eps))
     (\<lambda>v. \<exists>dot sp sps. v = dot @ sp # sps \<and> (dot = [] \<or> dot = ''.'') \<and> isspace sp)"
  unfolding rx_chr_def rx_plus_def
proof (rule consumes_mono [OF consumes_seq [OF consumes_opt [OF consumes_cls]
        consumes_seq [OF consumes_seq [OF consumes_cls consumes_spaces] consumes_eps]]])
  fix u
  assume "\<exists>a b. u = a @ b \<and> (a = [] \<or> (\<exists>c. a = [c] \<and> c = CHR ''.''))
      \<and> (\<exists>a ba. b = a @ ba
            \<and> (\<exists>a' b'. a = a' @ b' \<and> (\<exists>c. a' = [c] \<and> isspace c) \<and> (\<forall>c \<in> set b'. isspace c))
            \<and> ba = [])"
  then obtain a b where ab: "u = a @ b" "a = [] \<or> (\<exists>c. a = [c] \<and> c = CHR ''.'')"
    "\<exists>a ba. b = a @ ba
            \<and> (\<exists>a' b'. a = a' @ b' \<and> (\<exists>c. a' = [c] \<and> isspace c) \<and> (\<forall>c \<in> set b'. isspace c))
            \<and> ba = []" by blast
  from ab(3) obtain sp b' where b: "b = [sp] @ b'" "isspace sp" by auto
  have d: "a = [] \<or> a = ''.''" using ab(2) by auto
  have "u = a @ sp # b'" using ab(1) b(1) by simp
  with d b(2) show "\<exists>dot sp sps. u = dot @ sp # sps \<and> (dot = [] \<or> dot = ''.'') \<and> isspace sp"
    by blast
qed

lemma rx_grp1_consumes:
  assumes "consumes p L" "x \<in> set (rx_grp1 p st)"
  shows "\<exists>g. L g \<and> prefix g (rest st) \<and> x = (advance g st)\<lparr>group1 := Some g\<rparr>"
proof -
  from assms(2) obtain y where y: "y \<in> set (p st)"
    "x = y\<lparr>group1 := Some (rev (take (length (seen_rev y) - length (seen_rev st)) (seen_rev y)))\<rparr>"
    by (auto simp: rx_grp1_def)
  from consumesD [OF assms(1) y(1)] obtain g where
    g: "L g" "prefix g (rest st)" "y = advance g st" by blast
  have "x = (advance g st)\<lparr>group1 := Some g\<rparr>"
    unfolding y(2) g(3) by (simp add: seen_rev_advance)
  with g show ?thesis by blast
qed

lemma number_match_prefix_conv:
  assumes "number_match t = Some g"
  shows "numbering_prefix g t"
proof -
  let ?st0 = "\<lparr>seen_rev = [], rest = t, group1 = None\<rparr>"
  let ?G = "rx_alt (rx_cls isupper_AZ)
                 (rx_seq (rx_rep12 (rx_cls isdigit))
                         (rx_star (rx_seq (rx_chr CHR ''.'') (rx_rep12 (rx_cls isdigit)))))"
  let ?C = "rx_seq (rx_opt (rx_chr CHR ''.'')) (rx_seq (rx_plus (rx_cls isspace)) rx_eps)"
  have np: "number_pattern = rx_seq (rx_star (rx_cls isspace)) (rx_seq (rx_grp1 ?G) ?C)"
    by (simp add: number_pattern_def rx_seqs_def)
  from assms obtain x where x: "x \<in> set (number_pattern ?st0)" "group1 x = Some g"
    by (cases "number_pattern ?st0") (auto simp: number_match_def re_match_def)
  from x(1) obtain s1 s2 where s1: "s1 \<in> set (rx_star (rx_cls isspace) ?st0)"
    and s2: "s2 \<in> set (rx_grp1 ?G s1)" and s3: "x \<in> set (?C s2)"
    unfolding np by (auto simp: set_rx_seq)
  from consumesD [OF consumes_spaces s1] obtain ws where
    ws: "\<forall>c \<in> set ws. isspace c" "prefix ws (rest ?st0)" "s1 = advance ws ?st0" by blast
  from rx_grp1_consumes [OF consumes_group_body s2] obtain g' where
    g': "(\<exists>c. g' = [c] \<and> isupper_AZ c)
        \<or> (\<exists>ns. ns \<noteq> [] \<and> (\<forall>n \<in> set ns. digits12 n) \<and> g' = join ''.'' ns)"
    "prefix g' (rest s1)" "s2 = (advance g' s1)\<lparr>group1 := Some g'\<rparr>" by blast
  from consumesD [OF consumes_tail s3] obtain dot sp sps where
    v: "dot = [] \<or> dot = ''.''" "isspace sp" "prefix (dot @ sp # sps) (rest s2)"
    "x = advance (dot @ sp # sps) s2" by blast
  have "group1 x = Some g'" unfolding v(4) g'(3) by (simp add: advance_def)
  with x(2) have gg: "g' = g" by simp
  from ws(2) obtain t1 where t1: "t = ws @ t1" by (auto simp: prefix_def)
  then have r1: "rest s1 = t1" unfolding ws(3) by (simp add: advance_def)
  from g'(2) r1 obtain t2 where t2: "t1 = g' @ t2" by (auto simp: prefix_def)
  then have r2: "rest s2 = t2" unfolding g'(3) using r1 by (simp add: advance_def)
  from v(3) r2 obtain t3 where t3: "t2 = (dot @ sp # sps) @ t3" by (auto simp: prefix_def)
  have "t = ws @ g @ dot @ sp # (sps @ t3)" using t1 t2 t3 gg by simp
  then show ?thesis
    unfolding numbering_prefix_def starts_with_numbering_def using ws(1) v(1,2) g'(1) gg by blast
qed

section \<open>Sizes and levels\<close>

lemma fold_enumerate_notin:
  "k \<notin> set xs \<Longrightarrow> fold (\<lambda>(i, s) d. d(s \<mapsto> f i)) (enumerate n xs) d0 k = d0 k"
  by (induction xs arbitrary: n d0) auto

lemma fold_enumerate_nth:
  "distinct xs \<Longrightarrow> i < length xs
     \<Longrightarrow> fold (\<lambda>(i, s) d. d(s \<mapsto> f i)) (enumerate n xs) d0 (xs ! i) = Some (f (n + i))"
proof (induction xs arbitrary: n d0 i)
  case Nil
  then show ?case by simp
next
  case (Cons x xs)
  show ?case
  proof (cases i)
    case 0
    have "x \<notin> set xs" using Cons.prems(1) by simp
    from fold_enumerate_notin [OF this, of f "Suc n" "d0(x \<mapsto> f n)"]
    have "fold (\<lambda>(i, s) d. d(s \<mapsto> f i)) (enumerate (Suc n) xs) (d0(x \<mapsto> f n)) x = Some (f n)"
      by simp
    then show ?thesis
      unfolding 0 by (simp only: enumerate_simps fold_simps o_apply nth_Cons_0 case_prod_conv
          add_0_right)
  next
    case (Suc j)
    then show ?thesis using Cons.prems Cons.IH [of j "Suc n"] by simp
  qed
qed

lemma size_to_level_Some:
  assumes "distinct sizes" "size_to_level sizes s = Some l"
  shows "\<exists>i. i < 3 \<and> i < length sizes \<and> sizes ! i = s \<and> l = fmt_H (i + 1)"
proof -
  have "s \<in> set (take 3 sizes)"
  proof (rule ccontr)
    assume "s \<notin> set (take 3 sizes)"
    then have "size_to_level sizes s = None"
      by (simp add: size_to_level_def fold_enumerate_notin)
    with assms(2) show False by simp
  qed
  then obtain i where i: "i < length (take 3 sizes)" "take 3 sizes ! i = s"
    by (auto simp: in_set_conv_nth)
  have d: "distinct (take 3 sizes)" using assms(1) by simp
  have "size_to_level sizes (take 3 sizes ! i) = Some (fmt_H (0 + i + 1))"
    unfolding size_to_level_def using fold_enumerate_nth [OF d i(1), of "\<lambda>i. fmt_H (i + 1)" 0 Map.empty]
    by simp
  with assms(2) i have "l = fmt_H (i + 1)" by simp
  with i show ?thesis by (intro exI [of _ i]) auto
qed


lemma distinct_sizes_desc_distinct: "distinct (distinct_sizes_desc blocks)"
  by (simp add: distinct_sizes_desc_def)

lemma distinct_sizes_desc_decreasing:
  assumes "i < j" "j < length (distinct_sizes_desc blocks)"
  shows "distinct_sizes_desc blocks ! j < distinct_sizes_desc blocks ! i"
proof -
  let ?ds = "distinct_sizes_desc blocks"
  have "sorted (rev ?ds)" by (simp add: distinct_sizes_desc_def)
  then have "sorted_wrt (\<lambda>x y. y \<le> x) ?ds"
    by (simp only: sorted_wrt_rev)
  then have "?ds ! j \<le> ?ds ! i" using assms by (rule sorted_wrt_nth_less)
  moreover have "?ds ! j \<noteq> ?ds ! i"
    using distinct_sizes_desc_distinct [of blocks] assms by (simp add: nth_eq_iff_index_eq)
  ultimately show ?thesis by simp
qed

lemma size_to_level_monotone:
  assumes "size_to_level (distinct_sizes_desc blocks) s1 = Some l1"
    "size_to_level (distinct_sizes_desc blocks) s2 = Some l2" "s2 < s1"
  shows "\<exists>m n. l1 = fmt_H m \<and> l2 = fmt_H n \<and> 1 \<le> m \<and> m \<le> n \<and> n \<le> 3"
proof -
  let ?ds = "distinct_sizes_desc blocks"
  from size_to_level_Some [OF distinct_sizes_desc_distinct assms(1)]
  obtain i where i: "i < 3" "i < length ?ds" "?ds ! i = s1" "l1 = fmt_H (i + 1)" by blast
  from size_to_level_Some [OF distinct_sizes_desc_distinct assms(2)]
  obtain j where j: "j < 3" "j < length ?ds" "?ds ! j = s2" "l2 = fmt_H (j + 1)" by blast
  have "i \<le> j"
  proof (rule ccontr)
    assume "\<not> i \<le> j"
    then have "j < i" by simp
    then have "?ds ! i < ?ds ! j" using i(2) by (rule distinct_sizes_desc_decreasing)
    with i(3) j(3) assms(3) show False by simp
  qed
  with i j show ?thesis by (intro exI [of _ "i + 1"] exI [of _ "j + 1"]) auto
qed

section \<open>Heading levels\<close>

lemma set_map_filter_conv:
  "set (List.map_filter f xs) = {y. \<exists>x \<in> set xs. f x = Some y}"
  by (induction xs) (auto split: option.splits)

lemma level_2_1: "fmt_H (min (count_list ''2.1'' CHR ''.'' + 1) 3) = ''H2''"
  by code_simp

lemma level_2_1_4_9: "fmt_H (min (count_list ''2.1.4.9'' CHR ''.'' + 1) 3) = ''H3''"
  by code_simp

lemma heading_item_numbered:
  "number_match (b_text b) = Some g \<Longrightarrow>
     heading_item stl b =
       Some \<lparr>i_level = fmt_H (min (count_list g CHR ''.'' + 1) 3), i_text = b_text b,
             i_page = b_page b\<rparr>"
  by (simp add: heading_item_def heading_level_def)

lemma heading_item_unnumbered:
  "number_match (b_text b) = None \<Longrightarrow>
     heading_item stl b =
       map_option (\<lambda>level. \<lparr>i_level = level, i_text = b_text b, i_page = b_page b\<rparr>)
         (stl (b_size b))"
  by (simp add: heading_item_def heading_level_def)

lemma strategy2_outline_set:
  "set (strategy2_outline candidates) =
     {it. \<exists>b \<in> set candidates.
        heading_item (size_to_level (distinct_sizes_desc candidates)) b = Some it}"
  by (auto simp: strategy2_outline_def Let_def set_map_filter_conv)

lemma level_12_3: "fmt_H (min (count_list ''12.3'' CHR ''.'' + 1) 3) = ''H2''"
  by code_simp

lemma level_A: "fmt_H (min (count_list ''A'' CHR ''.'' + 1) 3) = ''H1''"
  by code_simp

lemma level_100: "fmt_H (min (count_list ''100'' CHR ''.'' + 1) 3) = ''H1''"
  by code_simp

lemma numbered_candidates_outline:
  "strategy2_outline numbered_candidates =
     [\<lparr>i_level = ''H1'', i_text = ''Overview'', i_page = 1\<rparr>,
      \<lparr>i_level = ''H2'', i_text = ''100 Ways to Win'', i_page = 1\<rparr>,
      \<lparr>i_level = ''H2'', i_text = ''12.3. Results'', i_page = 2\<rparr>,
      \<lparr>i_level = ''H1'', i_text = ''A. Appendix'', i_page = 3\<rparr>,
      \<lparr>i_level = ''H2'', i_text = ''2.1 Scope'', i_page = 4\<rparr>,
      \<lparr>i_level = ''H3'', i_text = ''2.1.4.9 Details'', i_page = 4\<rparr>]"
  by code_simp

text \<open>
  C5, as the specification states it, fails: \<^verbatim>\<open>100 Ways to Win\<close> starts with a numeric
  sequence followed by white space, with no period in it, yet the entry of the candidate
  has the level H2 of its size and not H1.
\<close>

theorem three_digit_number_keeps_size_level:
  "starts_with_numbering digits_any ''100'' ''100 Ways to Win''
   \<and> fmt_H (min (count_list ''100'' CHR ''.'' + 1) 3) = ''H1''
   \<and> strategy2_outline numbered_candidates =
     [\<lparr>i_level = ''H1'', i_text = ''Overview'', i_page = 1\<rparr>,
      \<lparr>i_level = ''H2'', i_text = ''100 Ways to Win'', i_page = 1\<rparr>,
      \<lparr>i_level = ''H2'', i_text = ''12.3. Results'', i_page = 2\<rparr>,
      \<lparr>i_level = ''H1'', i_text = ''A. Appendix'', i_page = 3\<rparr>,
      \<lparr>i_level = ''H2'', i_text = ''2.1 Scope'', i_page = 4\<rparr>,
      \<lparr>i_level = ''H3'', i_text = ''2.1.4.9 Details'', i_page = 4\<rparr>]"
proof (intro conjI)
  have d: "digits_any ''100''" by (simp add: digits_any_def isdigit_def)
  have "''100 Ways to Win'' = [] @ ''100'' @ [] @ CHR '' '' # ''Ways to Win''
      \<and> (\<forall>c \<in> set ([] :: string). isspace c) \<and> (([] :: string) = [] \<or> [] = ''.'')
      \<and> isspace CHR '' ''
      \<and> ((\<exists>c. ''100'' = [c] \<and> isupper_AZ c)
         \<or> (\<exists>ns. ns \<noteq> [] \<and> (\<forall>n \<in> set ns. digits_any n) \<and> ''100'' = join ''.'' ns))"
    using d by (auto simp: isspace_def intro: exI [of _ "[''100'']"])
  then show "starts_with_numbering digits_any ''100'' ''100 Ways to Win''"
    unfolding starts_with_numbering_def by blast
  show "fmt_H (min (count_list ''100'' CHR ''.'' + 1) 3) = ''H1''" by (rule level_100)
  show "strategy2_outline numbered_candidates =
     [\<lparr>i_level = ''H1'', i_text = ''Overview'', i_page = 1\<rparr>,
      \<lparr>i_level = ''H2'', i_text = ''100 Ways to Win'', i_page = 1\<rparr>,
      \<lparr>i_level = ''H2'', i_text = ''12.3. Results'', i_page = 2\<rparr>,
      \<lparr>i_level = ''H1'', i_text = ''A. Appendix'', i_page = 3\<rparr>,
      \<lparr>i_level = ''H2'', i_text = ''2.1 Scope'', i_page = 4\<rparr>,
      \<lparr>i_level = ''H3'', i_text = ''2.1.4.9 Details'', i_page = 4\<rparr>]"
    by (rule numbered_candidates_outline)
qed

text \<open>
  C5, amended to the prefixes of the pattern: the numbering pattern matches a text with
  group \<open>g\<close> exactly when the text is white space, then \<open>g\<close>, one letter from \<^verbatim>\<open>A\<close> to \<^verbatim>\<open>Z\<close>
  or numbers of one or two digits joined by single periods, then an optional period and a
  white-space character. Such a candidate gets, for every map from sizes to levels, the
  level H followed by the smaller of 3 and the number of periods of \<open>g\<close> plus 1, and its
  entry is in the outline of the strategy; a candidate whose text has no such prefix gets
  the level of its size, if any. A text starting with \<^verbatim>\<open>2.1\<close> and a blank gets H2, one
  starting with \<^verbatim>\<open>2.1.4.9\<close> and a blank gets H3.
\<close>

theorem numbering_prefix_level:
  "(numbering_prefix g (b_text b) \<longleftrightarrow> number_match (b_text b) = Some g)
   \<and> (numbering_prefix g (b_text b) \<longrightarrow>
        heading_item stl b =
          Some \<lparr>i_level = fmt_H (min (count_list g CHR ''.'' + 1) 3), i_text = b_text b,
                i_page = b_page b\<rparr>)
   \<and> (numbering_prefix g (b_text b) \<and> b \<in> set candidates \<longrightarrow>
        \<lparr>i_level = fmt_H (min (count_list g CHR ''.'' + 1) 3), i_text = b_text b,
          i_page = b_page b\<rparr> \<in> set (strategy2_outline candidates))
   \<and> ((\<forall>g'. \<not> numbering_prefix g' (b_text b)) \<longrightarrow>
        heading_item stl b =
          map_option (\<lambda>level. \<lparr>i_level = level, i_text = b_text b, i_page = b_page b\<rparr>)
            (stl (b_size b)))
   \<and> (b_text b = ''2.1 '' @ r \<longrightarrow>
        heading_item stl b = Some \<lparr>i_level = ''H2'', i_text = b_text b, i_page = b_page b\<rparr>)
   \<and> (b_text b = ''2.1.4.9 '' @ r \<longrightarrow>
        heading_item stl b = Some \<lparr>i_level = ''H3'', i_text = b_text b, i_page = b_page b\<rparr>)"
proof (intro conjI impI)
  show "numbering_prefix g (b_text b) \<longleftrightarrow> number_match (b_text b) = Some g"
    using number_match_prefix number_match_prefix_conv by blast
  show "heading_item stl b =
          Some \<lparr>i_level = fmt_H (min (count_list g CHR ''.'' + 1) 3), i_text = b_text b,
                i_page = b_page b\<rparr>" if "numbering_prefix g (b_text b)"
    using number_match_prefix [OF that] by (rule heading_item_numbered)
  show "\<lparr>i_level = fmt_H (min (count_list g CHR ''.'' + 1) 3), i_text = b_text b,
          i_page = b_page b\<rparr> \<in> set (strategy2_outline candidates)"
    if "numbering_prefix g (b_text b) \<and> b \<in> set candidates"
  proof -
    from that have n: "number_match (b_text b) = Some g" and m: "b \<in> set candidates"
      using number_match_prefix by blast+
    show ?thesis using m heading_item_numbered [OF n] by (auto simp: strategy2_outline_set)
  qed
  show "heading_item stl b =
          map_option (\<lambda>level. \<lparr>i_level = level, i_text = b_text b, i_page = b_page b\<rparr>)
            (stl (b_size b))" if "\<forall>g'. \<not> numbering_prefix g' (b_text b)"
  proof -
    have "number_match (b_text b) = None"
    proof (cases "number_match (b_text b)")
      case None
      then show ?thesis .
    next
      case (Some g')
      then have "numbering_prefix g' (b_text b)" by (rule number_match_prefix_conv)
      with that show ?thesis by blast
    qed
    then show ?thesis by (rule heading_item_unnumbered)
  qed
  show "heading_item stl b = Some \<lparr>i_level = ''H2'', i_text = b_text b, i_page = b_page b\<rparr>"
    if t: "b_text b = ''2.1 '' @ r"
  proof -
    have "number_match (b_text b) = Some ''2.1''" unfolding t by (rule number_match_2_1)
    from heading_item_numbered [OF this, of stl] show ?thesis by (simp only: level_2_1)
  qed
  show "heading_item stl b = Some \<lparr>i_level = ''H3'', i_text = b_text b, i_page = b_page b\<rparr>"
    if t: "b_text b = ''2.1.4.9 '' @ r"
  proof -
    have "number_match (b_text b) = Some ''2.1.4.9''" unfolding t by (rule number_match_2_1_4_9)
    from heading_item_numbered [OF this, of stl] show ?thesis by (simp only: level_2_1_4_9)
  qed
qed

lemma strategy1_emit_total: "strategy1_emit stl tp b \<noteq> None"
  by (auto simp: strategy1_emit_def py_getitem_def)

lemma strategy1_loop_eq:
  "strategy1_loop stl tp bs outl =
     Some (outl @ concat (map (\<lambda>b. case strategy1_emit stl tp b of None \<Rightarrow> [] | Some its \<Rightarrow> its) bs))"
proof (induction bs arbitrary: outl)
  case Nil
  then show ?case by simp
next
  case (Cons b bs)
  obtain its where "strategy1_emit stl tp b = Some its"
    using strategy1_emit_total [of stl tp b] by auto
  then show ?case by (simp add: Cons.IH)
qed

lemma strategy1_emit_level:
  assumes "strategy1_emit stl tp b = Some [it]"
  shows "stl (b_size b) = Some (i_level it)"
  using assms by (auto simp: strategy1_emit_def py_getitem_def split: if_splits)

lemma heading_item_level:
  assumes "heading_item stl b = Some it" "number_match (b_text b) = None"
  shows "stl (b_size b) = Some (i_level it)"
  using assms by (auto simp: heading_item_unnumbered)

text \<open>
  C6: the outline of either strategy consists of the entries of its blocks, and of two
  blocks with entries whose levels come from their sizes, the larger block has a level
  number that is at most that of the smaller one.
\<close>

theorem level_monotone_in_size:
  "strategy1 blocks tp (distinct_sizes_desc blocks) =
     Some (concat (map (\<lambda>b. case strategy1_emit (size_to_level (distinct_sizes_desc blocks)) tp b of
                               None \<Rightarrow> [] | Some its \<Rightarrow> its) blocks))
   \<and> (strategy1_emit (size_to_level (distinct_sizes_desc blocks)) tp b1 = Some [it1]
      \<and> strategy1_emit (size_to_level (distinct_sizes_desc blocks)) tp b2 = Some [it2]
      \<and> b_size b2 < b_size b1
      \<longrightarrow> (\<exists>m n. i_level it1 = fmt_H m \<and> i_level it2 = fmt_H n \<and> 1 \<le> m \<and> m \<le> n \<and> n \<le> 3))
   \<and> strategy2_outline candidates =
       List.map_filter (heading_item (size_to_level (distinct_sizes_desc candidates)))
         (sort_key (\<lambda>b. (b_page b, bbox1 b)) candidates)
   \<and> (heading_item (size_to_level (distinct_sizes_desc candidates)) c1 = Some it1'
      \<and> heading_item (size_to_level (distinct_sizes_desc candidates)) c2 = Some it2'
      \<and> number_match (b_text c1) = None \<and> number_match (b_text c2) = None
      \<and> b_size c2 < b_size c1
      \<longrightarrow> (\<exists>m n. i_level it1' = fmt_H m \<and> i_level it2' = fmt_H n \<and> 1 \<le> m \<and> m \<le> n \<and> n \<le> 3))"
proof (intro conjI impI)
  show "strategy1 blocks tp (distinct_sizes_desc blocks) =
     Some (concat (map (\<lambda>b. case strategy1_emit (size_to_level (distinct_sizes_desc blocks)) tp b of
                               None \<Rightarrow> [] | Some its \<Rightarrow> its) blocks))"
    by (simp add: strategy1_def strategy1_loop_eq)
  show "strategy2_outline candidates =
       List.map_filter (heading_item (size_to_level (distinct_sizes_desc candidates)))
         (sort_key (\<lambda>b. (b_page b, bbox1 b)) candidates)"
    by (simp add: strategy2_outline_def Let_def)
next
  assume h: "strategy1_emit (size_to_level (distinct_sizes_desc blocks)) tp b1 = Some [it1]
      \<and> strategy1_emit (size_to_level (distinct_sizes_desc blocks)) tp b2 = Some [it2]
      \<and> b_size b2 < b_size b1"
  then have e1: "strategy1_emit (size_to_level (distinct_sizes_desc blocks)) tp b1 = Some [it1]"
    and e2: "strategy1_emit (size_to_level (distinct_sizes_desc blocks)) tp b2 = Some [it2]"
    and lt: "b_size b2 < b_size b1" by simp_all
  show "\<exists>m n. i_level it1 = fmt_H m \<and> i_level it2 = fmt_H n \<and> 1 \<le> m \<and> m \<le> n \<and> n \<le> 3"
    by (rule size_to_level_monotone [OF strategy1_emit_level [OF e1] strategy1_emit_level [OF e2] lt])
next
  assume h: "heading_item (size_to_level (distinct_sizes_desc candidates)) c1 = Some it1'
      \<and> heading_item (size_to_level (distinct_sizes_desc candidates)) c2 = Some it2'
      \<and> number_match (b_text c1) = None \<and> number_match (b_text c2) = None
      \<and> b_size c2 < b_size c1"
  then have e1: "heading_item (size_to_level (distinct_sizes_desc candidates)) c1 = Some it1'"
    and e2: "heading_item (size_to_level (distinct_sizes_desc candidates)) c2 = Some it2'"
    and n1: "number_match (b_text c1) = None" and n2: "number_match (b_text c2) = None"
    and lt: "b_size c2 < b_size c1" by simp_all
  show "\<exists>m n. i_level it1' = fmt_H m \<and> i_level it2' = fmt_H n \<and> 1 \<le> m \<and> m \<le> n \<and> n \<le> 3"
    by (rule size_to_level_monotone
          [OF heading_item_level [OF e1 n1] heading_item_level [OF e2 n2] lt])
qed




lemma numbering_prefix_12_3: "numbering_prefix ''12.3'' ''12.3. Results''"
proof -
  have d: "\<forall>n \<in> set [''12'', ''3'']. digits12 n" by (simp add: digits12_def isdigit_def)
  have "''12.3. Results'' = [] @ ''12.3'' @ ''.'' @ CHR '' '' # ''Results''
      \<and> (\<forall>c \<in> set ([] :: string). isspace c) \<and> (''.'' = [] \<or> ''.'' = ''.'')
      \<and> isspace CHR '' ''
      \<and> ((\<exists>c. ''12.3'' = [c] \<and> isupper_AZ c)
         \<or> (\<exists>ns. ns \<noteq> [] \<and> (\<forall>n \<in> set ns. digits12 n) \<and> ''12.3'' = join ''.'' ns))"
    using d by (auto simp: isspace_def intro: exI [of _ "[''12'', ''3'']"])
  then show ?thesis
    unfolding numbering_prefix_def starts_with_numbering_def by blast
qed

lemma numbering_prefix_A: "numbering_prefix ''A'' ''A. Appendix''"
proof -
  have "''A. Appendix'' = [] @ ''A'' @ ''.'' @ CHR '' '' # ''Appendix''
      \<and> (\<forall>c \<in> set ([] :: string). isspace c) \<and> (''.'' = [] \<or> ''.'' = ''.'')
      \<and> isspace CHR '' ''
      \<and> ((\<exists>c. ''A'' = [c] \<and> isupper_AZ c)
         \<or> (\<exists>ns. ns \<noteq> [] \<and> (\<forall>n \<in> set ns. digits12 n) \<and> ''A'' = join ''.'' ns))"
    by (simp add: isspace_def isupper_AZ_def)
  then show ?thesis
    unfolding numbering_prefix_def starts_with_numbering_def by blast
qed

theorem numbering_prefix_level_witness:
  "numbering_prefix ''12.3'' (b_text (numbered_candidates ! 2))
   \<and> number_match ''12.3. Results'' = Some ''12.3''
   \<and> heading_item (size_to_level (distinct_sizes_desc numbered_candidates))
        (numbered_candidates ! 2) =
       Some \<lparr>i_level = ''H2'', i_text = ''12.3. Results'', i_page = 2\<rparr>
   \<and> \<lparr>i_level = ''H2'', i_text = ''12.3. Results'', i_page = 2\<rparr>
       \<in> set (strategy2_outline numbered_candidates)
   \<and> numbering_prefix ''A'' (b_text (numbered_candidates ! 3))
   \<and> number_match ''A. Appendix'' = Some ''A''
   \<and> heading_item (size_to_level (distinct_sizes_desc numbered_candidates))
        (numbered_candidates ! 3) =
       Some \<lparr>i_level = ''H1'', i_text = ''A. Appendix'', i_page = 3\<rparr>
   \<and> number_match ''100 Ways to Win'' = None
   \<and> number_match ''2.100 Scope'' = None
   \<and> heading_item (size_to_level (distinct_sizes_desc numbered_candidates))
        (numbered_candidates ! 1) =
       Some \<lparr>i_level = ''H2'', i_text = ''100 Ways to Win'', i_page = 1\<rparr>
   \<and> b_text (numbered_candidates ! 4) = ''2.1 '' @ ''Scope''
   \<and> size_to_level (distinct_sizes_desc numbered_candidates)
        (b_size (numbered_candidates ! 4)) = Some ''H1''
   \<and> heading_item (size_to_level (distinct_sizes_desc numbered_candidates))
        (numbered_candidates ! 4) =
       Some \<lparr>i_level = ''H2'', i_text = ''2.1 Scope'', i_page = 4\<rparr>
   \<and> b_text (numbered_candidates ! 5) = ''2.1.4.9 '' @ ''Details''
   \<and> heading_item (size_to_level (distinct_sizes_desc numbered_candidates))
        (numbered_candidates ! 5) =
       Some \<lparr>i_level = ''H3'', i_text = ''2.1.4.9 Details'', i_page = 4\<rparr>"
proof -
  let ?stl = "size_to_level (distinct_sizes_desc numbered_candidates)"
  have t1: "b_text (numbered_candidates ! 1) = ''100 Ways to Win''"
    "b_page (numbered_candidates ! 1) = 1" "b_size (numbered_candidates ! 1) = 18"
    by (simp_all add: numbered_candidates_def)
  have t2: "b_text (numbered_candidates ! 2) = ''12.3. Results''"
    "b_page (numbered_candidates ! 2) = 2" "numbered_candidates ! 2 \<in> set numbered_candidates"
    by (simp_all add: numbered_candidates_def)
  have t3: "b_text (numbered_candidates ! 3) = ''A. Appendix''"
    "b_page (numbered_candidates ! 3) = 3"
    by (simp_all add: numbered_candidates_def)
  have p2: "numbering_prefix ''12.3'' (b_text (numbered_candidates ! 2))"
    unfolding t2(1) by (rule numbering_prefix_12_3)
  have p3: "numbering_prefix ''A'' (b_text (numbered_candidates ! 3))"
    unfolding t3(1) by (rule numbering_prefix_A)
  have n1: "number_match ''100 Ways to Win'' = None" by code_simp
  have n2: "number_match ''2.100 Scope'' = None" by code_simp
  have s18: "?stl 18 = Some ''H2''" by code_simp
  have none: "\<forall>g'. \<not> numbering_prefix g' (b_text (numbered_candidates ! 1))"
  proof
    fix g'
    from numbering_prefix_level [of g' "numbered_candidates ! 1" ?stl numbered_candidates "[]"]
    have "numbering_prefix g' (b_text (numbered_candidates ! 1))
        \<longleftrightarrow> number_match (b_text (numbered_candidates ! 1)) = Some g'" by blast
    then show "\<not> numbering_prefix g' (b_text (numbered_candidates ! 1))"
      unfolding t1(1) n1 by simp
  qed
  from numbering_prefix_level [of "''12.3''" "numbered_candidates ! 2" ?stl numbered_candidates "[]"]
    p2 t2
  have a: "number_match ''12.3. Results'' = Some ''12.3''"
    "heading_item ?stl (numbered_candidates ! 2) =
       Some \<lparr>i_level = ''H2'', i_text = ''12.3. Results'', i_page = 2\<rparr>"
    "\<lparr>i_level = ''H2'', i_text = ''12.3. Results'', i_page = 2\<rparr>
       \<in> set (strategy2_outline numbered_candidates)"
    by (simp_all only: level_12_3 simp_thms)
  from numbering_prefix_level [of "''A''" "numbered_candidates ! 3" ?stl numbered_candidates "[]"]
    p3 t3
  have b: "number_match ''A. Appendix'' = Some ''A''"
    "heading_item ?stl (numbered_candidates ! 3) =
       Some \<lparr>i_level = ''H1'', i_text = ''A. Appendix'', i_page = 3\<rparr>"
    by (simp_all only: level_A simp_thms)
  from numbering_prefix_level [of "[]" "numbered_candidates ! 1" ?stl numbered_candidates "[]"]
    none
  have c: "heading_item ?stl (numbered_candidates ! 1) =
       Some \<lparr>i_level = ''H2'', i_text = ''100 Ways to Win'', i_page = 1\<rparr>"
    unfolding t1 s18 by simp
  have t4: "b_text (numbered_candidates ! 4) = ''2.1 '' @ ''Scope''"
    "b_page (numbered_candidates ! 4) = 4"
    by (simp_all add: numbered_candidates_def)
  have s4: "?stl (b_size (numbered_candidates ! 4)) = Some ''H1''"
    by code_simp
  have t5: "b_text (numbered_candidates ! 5) = ''2.1.4.9 '' @ ''Details''"
    "b_page (numbered_candidates ! 5) = 4"
    by (simp_all add: numbered_candidates_def)
  from numbering_prefix_level [of "[]" "numbered_candidates ! 4" ?stl numbered_candidates
      "''Scope''"] t4
  have d: "heading_item ?stl (numbered_candidates ! 4) =
       Some \<lparr>i_level = ''H2'', i_text = ''2.1 Scope'', i_page = 4\<rparr>"
    by simp
  from numbering_prefix_level [of "[]" "numbered_candidates ! 5" ?stl numbered_candidates
      "''Details''"] t5
  have e: "heading_item ?stl (numbered_candidates ! 5) =
       Some \<lparr>i_level = ''H3'', i_text = ''2.1.4.9 Details'', i_page = 4\<rparr>"
    by simp
  show ?thesis
    by (intro conjI) (rule p2, rule a(1), rule a(2), rule a(3), rule p3, rule b(1), rule b(2),
      rule n1, rule n2, rule c, rule t4(1), rule s4, rule d, rule t5(1), rule e)
qed

theorem level_monotone_in_size_witness:
  "strategy1_emit (size_to_level (distinct_sizes_desc resume_example)) [''Jane Doe'']
       (resume_example ! 1) = Some [\<lparr>i_level = ''H2'', i_text = ''Experience'', i_page = 0\<rparr>]
   \<and> strategy1_emit (size_to_level (distinct_sizes_desc resume_example)) [''Jane Doe'']
       (resume_example ! 2) = Some [\<lparr>i_level = ''H3'', i_text = ''Engineer at Acme'', i_page = 0\<rparr>]
   \<and> b_size (resume_example ! 2) < b_size (resume_example ! 1)
   \<and> (\<exists>m n. ''H2'' = fmt_H m \<and> ''H3'' = fmt_H n \<and> 1 \<le> m \<and> m \<le> n \<and> n \<le> 3)
   \<and> heading_item (size_to_level (distinct_sizes_desc report_candidates)) (report_candidates ! 0)
       = Some \<lparr>i_level = ''H1'', i_text = ''Overview'', i_page = 1\<rparr>
   \<and> heading_item (size_to_level (distinct_sizes_desc report_candidates)) (report_candidates ! 1)
       = Some \<lparr>i_level = ''H2'', i_text = ''Background'', i_page = 1\<rparr>
   \<and> number_match (b_text (report_candidates ! 0)) = None
   \<and> number_match (b_text (report_candidates ! 1)) = None
   \<and> b_size (report_candidates ! 1) < b_size (report_candidates ! 0)
   \<and> (\<exists>m n. ''H1'' = fmt_H m \<and> ''H2'' = fmt_H n \<and> 1 \<le> m \<and> m \<le> n \<and> n \<le> 3)"
proof -
  have e1: "strategy1_emit (size_to_level (distinct_sizes_desc resume_example)) [''Jane Doe'']
       (resume_example ! 1) = Some [\<lparr>i_level = ''H2'', i_text = ''Experience'', i_page = 0\<rparr>]"
    by code_simp
  have e2: "strategy1_emit (size_to_level (distinct_sizes_desc resume_example)) [''Jane Doe'']
       (resume_example ! 2) = Some [\<lparr>i_level = ''H3'', i_text = ''Engineer at Acme'', i_page = 0\<rparr>]"
    by code_simp
  have l1: "b_size (resume_example ! 2) < b_size (resume_example ! 1)"
    by (simp add: resume_example_def)
  have h1: "heading_item (size_to_level (distinct_sizes_desc report_candidates))
       (report_candidates ! 0) = Some \<lparr>i_level = ''H1'', i_text = ''Overview'', i_page = 1\<rparr>"
    by code_simp
  have h2: "heading_item (size_to_level (distinct_sizes_desc report_candidates))
       (report_candidates ! 1) = Some \<lparr>i_level = ''H2'', i_text = ''Background'', i_page = 1\<rparr>"
    by code_simp
  have n1: "number_match (b_text (report_candidates ! 0)) = None" by code_simp
  have n2: "number_match (b_text (report_candidates ! 1)) = None" by code_simp
  have l2: "b_size (report_candidates ! 1) < b_size (report_candidates ! 0)"
    by (simp add: report_candidates_def)
  from level_monotone_in_size [where blocks = resume_example and tp = "[''Jane Doe'']"
      and ?b1.0 = "resume_example ! 1" and ?b2.0 = "resume_example ! 2"
      and ?it1.0 = "\<lparr>i_level = ''H2'', i_text = ''Experience'', i_page = 0\<rparr>"
      and ?it2.0 = "\<lparr>i_level = ''H3'', i_text = ''Engineer at Acme'', i_page = 0\<rparr>"
      and candidates = report_candidates
      and ?c1.0 = "report_candidates ! 0" and ?c2.0 = "report_candidates ! 1"
      and it1' = "\<lparr>i_level = ''H1'', i_text = ''Overview'', i_page = 1\<rparr>"
      and it2' = "\<lparr>i_level = ''H2'', i_text = ''Background'', i_page = 1\<rparr>"]
    e1 e2 l1 h1 h2 n1 n2 l2
  show ?thesis by simp
qed


section \<open>Totality\<close>

lemma count_up_ne: "count_up x kvs \<noteq> []"
  by (induction x kvs rule: count_up.induct) simp_all

lemma fold_count_up_ne: "kvs \<noteq> [] \<Longrightarrow> fold count_up xs kvs \<noteq> []"
  by (induction xs arbitrary: kvs) (simp_all add: count_up_ne)

lemma most_common1_ne: "xs \<noteq> [] \<Longrightarrow> most_common1 xs \<noteq> []"
proof (cases xs)
  case Nil
  then show "xs \<noteq> [] \<Longrightarrow> ?thesis" by simp
next
  case (Cons a list)
  have "Counter xs \<noteq> []"
    unfolding Counter_def Cons by (simp add: fold_count_up_ne count_up_ne)
  then show ?thesis by (cases "Counter xs") (simp_all add: most_common1_def)
qed

lemma py_first_total: "xs \<noteq> [] \<Longrightarrow> \<exists>x. py_first xs = Some x"
  by (cases xs) simp_all

lemma body_size_total: "\<exists>s. body_size blocks unique_sizes = Some s"
proof -
  let ?ps = "map b_size (filter (\<lambda>b. length (split (b_text b)) > 20) blocks)"
  show ?thesis
  proof (cases "?ps = []")
    case True
    then show ?thesis by (simp add: body_size_def py_last_def)
  next
    case False
    then obtain mc where "py_first (most_common1 ?ps) = Some mc"
      using py_first_total [OF most_common1_ne [OF False]] by blast
    then show ?thesis using False by (simp add: body_size_def Let_def)
  qed
qed

lemma strategy2_total: "\<exists>outl. strategy2 blocks title_parts unique_sizes = Some outl"
  using body_size_total [of blocks unique_sizes] by (auto simp: strategy2_def)

lemma strategy1_total: "\<exists>outl. strategy1 blocks title_parts unique_sizes = Some outl"
  by (simp add: strategy1_def strategy1_loop_eq)

lemma extract_title_total: "\<exists>r. extract_title blocks = Some r"
  by (cases "first_page_blocks blocks = []") (simp_all add: extract_title_def py_max_eq Let_def)

lemma merge_loop_total:
  "merged \<noteq> [] \<Longrightarrow> \<exists>r. merge_loop items merged = Some r"
proof (induction items arbitrary: merged)
  case Nil
  then show ?case by simp
next
  case (Cons a items)
  show ?case
  proof (cases "mergeable (last merged) a")
    case True
    have "\<exists>r. merge_loop items (butlast merged
        @ [(last merged)\<lparr>i_text := i_text (last merged) @ '' '' @ i_text a\<rparr>]) = Some r"
      by (rule Cons.IH) simp
    then show ?thesis using True Cons.prems
      by (simp add: merge_loop_step del: merge_loop.simps)
  next
    case False
    have "\<exists>r. merge_loop items (merged @ [a]) = Some r"
      by (rule Cons.IH) simp
    then show ?thesis using False Cons.prems
      by (simp add: merge_loop_step del: merge_loop.simps)
  qed
qed

lemma final_cleanup_total: "\<exists>r. final_cleanup outl = Some r"
proof (cases "dedup_loop outl {} []")
  case Nil
  then show ?thesis by (simp add: final_cleanup_def)
next
  case (Cons a f)
  have "\<exists>r. merge_loop f [a] = Some r" by (rule merge_loop_total) simp
  then show ?thesis by (simp add: final_cleanup_def Cons)
qed

lemma graphical_result_total: "blocks \<noteq> [] \<Longrightarrow> \<exists>r. graphical_result blocks = Some r"
  using graphical_result_eq [of blocks] by auto

text \<open>
  C9: the noise filter and the classifier return a value for every page count and every
  block list: each operation that can raise (\<^verbatim>\<open>max\<close>, indexing, the dictionary lookup,
  the division) runs under a guard that excludes the failure.
\<close>

theorem classification_core_total:
  "(\<exists>r. filter_non_content blocks doc = Some r) \<and> (\<exists>r. classify_headings doc blocks = Some r)"
proof
  show "\<exists>r. filter_non_content blocks doc = Some r"
    by (simp add: filter_non_content_eq)
  show "\<exists>r. classify_headings doc blocks = Some r"
  proof (cases "blocks = []")
    case True
    then show ?thesis by (simp add: classify_headings_def)
  next
    case False
    show ?thesis
    proof (cases "spec_is_graphical doc blocks")
      case True
      then show ?thesis using False graphical_result_total [OF False]
        by (simp add: classify_headings_def is_graphical_doc_eq)
    next
      case ng: False
      obtain doc_title title_parts where t: "extract_title blocks = Some (doc_title, title_parts)"
        using extract_title_total [of blocks] by auto
      show ?thesis
      proof (cases "1 < length (distinct_sizes_desc blocks)
              \<and> length (distinct_sizes_desc blocks) \<le> 6")
        case True
        obtain outl where o: "strategy1 blocks title_parts (distinct_sizes_desc blocks) = Some outl"
          using strategy1_total [of blocks title_parts "distinct_sizes_desc blocks"] by blast
        obtain m where m: "final_cleanup outl = Some m"
          using final_cleanup_total [of outl] by auto
        show ?thesis
          using False ng True
          by (simp add: classify_headings_def is_graphical_doc_eq t Let_def o m)
      next
        case s2: False
        obtain outl where o: "strategy2 blocks title_parts (distinct_sizes_desc blocks) = Some outl"
          using strategy2_total [of blocks title_parts "distinct_sizes_desc blocks"] by blast
        obtain m where m: "final_cleanup outl = Some m"
          using final_cleanup_total [of outl] by auto
        show ?thesis
          using False ng s2
          by (auto simp: classify_headings_def is_graphical_doc_eq t Let_def o m)
      qed
    qed
  qed
qed

end
